theory Spec2Isabelle
  imports Main "HOL-Library.AList"
begin

section \<open>The outside world: HTTP requests and delays\<close>

text \<open>
  The service talks to the network through \<open>axios.get\<close> and pauses with \<open>delay\<close>.
  Both are effects, so they are threaded through an explicit world: the state of the
  remote side (any type \<open>'n\<close>) and the trace of the effects performed so far, oldest
  first. A request that fails carries the error message, one that succeeds carries the
  response, of which the code reads only the \<open>data\<close> field. Console output is not part
  of the model, except where building a message can raise.
\<close>

record response =
  data :: string

datatype event = Delay nat | Get string "string + response"

record 'n world =
  net :: 'n
  trace :: "event list"

type_synonym 'n getter = "'n \<Rightarrow> string \<Rightarrow> (string + response) \<times> 'n"

definition delay :: "nat \<Rightarrow> 'n world \<Rightarrow> 'n world" where
  "delay ms w = w\<lparr>trace := trace w @ [Delay ms]\<rparr>"

definition axios_get :: "'n getter \<Rightarrow> string \<Rightarrow> 'n world \<Rightarrow> (string + response) \<times> 'n world" where
  "axios_get get url w =
     (case get (net w) url of
        (res, n') \<Rightarrow> (res, \<lparr>net = n', trace = trace w @ [Get url res]\<rparr>))"

section \<open>The retry client (utils/apiUtils)\<close>

text \<open>
  \<open>fetchWithRetry\<close> either returns the response of \<open>axios.get\<close>, rethrows the error of
  the last attempt, or falls out of its \<open>while\<close> loop without a \<open>return\<close> (the value
  \<open>undefined\<close>), which happens only when \<open>retries\<close> is 0.
\<close>

datatype fetched = Returned response | Thrown string | ReturnedUndefined

function fetchWithRetry_loop ::
  "'n getter \<Rightarrow> string \<Rightarrow> nat \<Rightarrow> nat \<Rightarrow> nat \<Rightarrow> 'n world \<Rightarrow> fetched \<times> 'n world" where
  "fetchWithRetry_loop get url retries delayMs attempt w =
     (if attempt < retries then
        (case axios_get get url (if attempt > 0 then delay delayMs w else w) of
           (Inr resp, w') \<Rightarrow> (Returned resp, w')
         | (Inl err, w') \<Rightarrow>
             (if attempt + 1 = retries then (Thrown err, w')
              else fetchWithRetry_loop get url retries delayMs (attempt + 1) (delay delayMs w')))
      else (ReturnedUndefined, w))"
  by pat_completeness auto
termination
  by (relation "measure (\<lambda>(get, url, retries, delayMs, attempt, w). retries - attempt)") auto

declare fetchWithRetry_loop.simps [simp del]

definition fetchWithRetry ::
  "'n getter \<Rightarrow> string \<Rightarrow> nat \<Rightarrow> nat \<Rightarrow> 'n world \<Rightarrow> fetched \<times> 'n world" where
  "fetchWithRetry get url retries delayMs w = fetchWithRetry_loop get url retries delayMs 0 w"

section \<open>Configuration and decoded XML\<close>

text \<open>
  The module \<open>../config\<close> supplies the constants; they are taken as a parameter. The two
  publication years are kept as the text the template literal renders.
\<close>

record publication_years =
  START :: string
  END :: string

record search_terms =
  QUERY :: string
  PUBLICATION_TYPES :: "string list"
  KEYWORDS :: "string list"

record config =
  BASE_URL :: string
  API_KEY :: string
  BATCH_SIZE :: nat
  DELAY_MS :: nat
  PUBLICATION_YEARS :: publication_years
  MAX_RESULTS :: nat
  DEFAULT_RETMAX :: nat
  SEARCH_TERMS :: search_terms

text \<open>
  With \<open>explicitArray: false\<close> the XML parser yields, for a child element, nothing when
  it is absent, the value itself when it occurs once and an array when it is repeated. A
  text-only element is a string (the empty string when the element is empty), which is
  why the fields below are optional strings and why JavaScript truthiness (\<open>undefined\<close>
  and \<open>''\<close> are falsy, every object and array is truthy) is written out.
\<close>

datatype 'a field = Absent | Single 'a | Many "'a list"

definition truthy :: "string option \<Rightarrow> bool" where
  "truthy v = (case v of None \<Rightarrow> False | Some s \<Rightarrow> s \<noteq> [])"

fun truthy_field :: "('a \<Rightarrow> bool) \<Rightarrow> 'a field \<Rightarrow> bool" where
  "truthy_field t Absent = False"
| "truthy_field t (Single x) = t x"
| "truthy_field t (Many xs) = True"

text \<open>
  \<open>Array.isArray(v) ? v : [v]\<close>. The source evaluates it only behind a truthiness test,
  so the value at \<open>Absent\<close> is never used.
\<close>

fun as_array :: "'a field \<Rightarrow> 'a list" where
  "as_array Absent = []"
| "as_array (Single x) = [x]"
| "as_array (Many xs) = xs"

text \<open>\<open>a || b\<close> for a possibly missing string \<open>a\<close>.\<close>

definition or_else :: "string option \<Rightarrow> string \<Rightarrow> string" where
  "or_else a b = (if truthy a then the a else b)"

record id_list =
  Id' :: "string field"

record esearch_result =
  IdList :: "id_list option"

record search_result =
  eSearchResult :: "esearch_result option"

datatype title = TitleString string | TitleObject "string option"

record affiliation_info =
  Affiliation :: "string option"

record author =
  LastName :: "string option"
  ForeName :: "string option"
  CollectiveName :: "string option"
  AffiliationInfo :: "affiliation_info field"

record pub_date =
  Year :: "string option"

record journal_issue =
  PubDate :: "pub_date option"

record journal =
  JournalIssue :: "journal_issue option"

record author_list =
  Author :: "author field"

record article_data =
  ArticleTitle :: "title option"
  Journal :: "journal option"
  AuthorList :: "author_list option"

record medline_citation =
  Article :: "article_data option"

record pubmed_article =
  MedlineCitation :: "medline_citation option"

record pubmed_article_set =
  PubmedArticle :: "pubmed_article field"

record fetch_result =
  PubmedArticleSet :: "pubmed_article_set option"

text \<open>
  The environment: the HTTP client, the XML parser seen at the two shapes the service
  reads, and the built-ins. The parser may reject its input with a message (\<open>Inl\<close>);
  for a body that is empty or blank it yields \<open>null\<close>, which is the document \<open>None\<close>.
  \<open>decodeURIComponent\<close> raises \<open>URIError\<close> on a malformed escape sequence, which is the
  value \<open>None\<close>. \<open>toLowerCase\<close> and \<open>trim\<close> are the methods of \<open>String.prototype\<close>;
  they follow the Unicode tables and are not defined here.
\<close>

record 'n env =
  get :: "'n getter"
  parseXml_search :: "string \<Rightarrow> string + search_result option"
  parseXml_fetch :: "string \<Rightarrow> string + fetch_result option"
  encodeURIComponent :: "string \<Rightarrow> string"
  decodeURIComponent :: "string \<Rightarrow> string option"
  toLowerCase :: "string \<Rightarrow> string"
  trim :: "string \<Rightarrow> string"

datatype error = RequestError string | XmlError string | TypeError | URIError | Error string

definition NoResultsError :: error where
  "NoResultsError = Error ''No article IDs found in the search response''"

section \<open>Strings\<close>

text \<open>
  A string is the list of its characters (a character outside ASCII takes the bytes of
  its UTF-8 form). Joining, decimal numerals, substring search and slicing are defined
  here; case folding and trimming belong to the environment.
\<close>

fun join :: "string \<Rightarrow> string list \<Rightarrow> string" where
  "join sep [] = []"
| "join sep [x] = x"
| "join sep (x # y # ys) = x @ sep @ join sep (y # ys)"

definition digit_char :: "nat \<Rightarrow> char" where
  "digit_char d = char_of (48 + d)"

function show_nat :: "nat \<Rightarrow> string" where
  "show_nat n = (if n < 10 then [digit_char n] else show_nat (n div 10) @ [digit_char (n mod 10)])"
  by pat_completeness auto
termination
  by (relation "measure id") auto

declare show_nat.simps [simp del]

fun includes_str :: "string \<Rightarrow> string \<Rightarrow> bool" where
  "includes_str [] n = (n = [])"
| "includes_str (c # cs) n = (take (length n) (c # cs) = n \<or> includes_str cs n)"

definition slice :: "nat \<Rightarrow> nat \<Rightarrow> 'a list \<Rightarrow> 'a list" where
  "slice i j xs = take (j - i) (drop i xs)"

section \<open>The service (PubMedService)\<close>

subsection \<open>Search\<close>

definition buildSearchFilters :: "config \<Rightarrow> string" where
  "buildSearchFilters cfg =
     (let publicationTypes =
            join '' OR ''
              (map (\<lambda>type. [CHR 0x22] @ type @ [CHR 0x22] @ ''[Publication Type]'')
                 (PUBLICATION_TYPES (SEARCH_TERMS cfg)))
      in join '' ''
           [''('' @ QUERY (SEARCH_TERMS cfg) @ '')'',
            ''AND'',
            ''('',
            publicationTypes,
            '')'',
            ''AND'',
            ''('',
            [CHR 0x22] @ START (PUBLICATION_YEARS cfg) @ [CHR 0x22] @ ''[Date - Publication]'',
            '':'',
            [CHR 0x22] @ END (PUBLICATION_YEARS cfg) @ [CHR 0x22] @ ''[Date - Publication]'',
            '')''])"

definition searchUrl :: "config \<Rightarrow> 'n env \<Rightarrow> nat \<Rightarrow> string" where
  "searchUrl cfg env retStart =
     BASE_URL cfg @ ''esearch.fcgi?db=pubmed&term=''
       @ encodeURIComponent env (buildSearchFilters cfg)
       @ ''&retmax='' @ show_nat (DEFAULT_RETMAX cfg)
       @ ''&retstart='' @ show_nat retStart
       @ ''&api_key='' @ API_KEY cfg"

text \<open>\<open>searchResult.eSearchResult?.IdList?.Id\<close>\<close>

definition search_Id :: "search_result \<Rightarrow> string field" where
  "search_Id searchResult =
     (case eSearchResult searchResult of
        None \<Rightarrow> Absent
      | Some r \<Rightarrow> (case IdList r of None \<Rightarrow> Absent | Some l \<Rightarrow> Id' l))"

text \<open>
  The \<open>while\<close> loop of \<open>searchArticles\<close>, on its variables \<open>allIds\<close> and \<open>retStart\<close>. It
  ends with the exception raised, if any, the accumulator and the world. With a page size
  of 0 the loop need not end, so not returning is the value \<open>None\<close>. Of the progress
  message only the call \<open>decodeURIComponent(filters)\<close>, made when \<open>retStart\<close> is 0, can
  raise, and only that is kept. Reading \<open>searchResult.eSearchResult\<close> of the document
  \<open>null\<close> raises \<open>TypeError\<close>: the optional chaining starts one step later.
\<close>

partial_function (option) searchArticles_loop ::
  "config \<Rightarrow> 'n env \<Rightarrow> string list \<Rightarrow> nat \<Rightarrow> 'n world
     \<Rightarrow> (error option \<times> string list \<times> 'n world) option" where
  "searchArticles_loop cfg env allIds retStart w =
     (if retStart < MAX_RESULTS cfg then
        (if retStart = 0 \<and> decodeURIComponent env (buildSearchFilters cfg) = None
         then Some (Some URIError, allIds, w)
         else
           (case fetchWithRetry (get env) (searchUrl cfg env retStart) 3 (DELAY_MS cfg) w of
              (Thrown err, w') \<Rightarrow> Some (Some (RequestError err), allIds, w')
            | (ReturnedUndefined, w') \<Rightarrow> Some (Some TypeError, allIds, w')
            | (Returned searchResponse, w') \<Rightarrow>
                (case parseXml_search env (data searchResponse) of
                   Inl err \<Rightarrow> Some (Some (XmlError err), allIds, w')
                 | Inr None \<Rightarrow> Some (Some TypeError, allIds, w')
                 | Inr (Some searchResult) \<Rightarrow>
                     (if \<not> truthy_field (\<lambda>s. s \<noteq> []) (search_Id searchResult)
                      then Some (None, allIds, w')
                      else if length (as_array (search_Id searchResult)) < DEFAULT_RETMAX cfg
                      then Some (None, allIds @ as_array (search_Id searchResult), w')
                      else searchArticles_loop cfg env
                             (allIds @ as_array (search_Id searchResult))
                             (retStart + DEFAULT_RETMAX cfg)
                             (if retStart + DEFAULT_RETMAX cfg < MAX_RESULTS cfg
                              then delay (DELAY_MS cfg) w' else w')))))
      else Some (None, allIds, w))"

declare searchArticles_loop.simps [code]

definition searchArticles ::
  "config \<Rightarrow> 'n env \<Rightarrow> 'n world \<Rightarrow> ((error + string list) \<times> 'n world) option" where
  "searchArticles cfg env w =
     (case searchArticles_loop cfg env [] 0 w of
        None \<Rightarrow> None
      | Some (Some err, allIds, w') \<Rightarrow> Some (Inl err, w')
      | Some (None, allIds, w') \<Rightarrow>
          Some (if allIds = [] then Inl NoResultsError else Inr allIds, w'))"

subsection \<open>Batched fetch\<close>

definition fetchUrl :: "config \<Rightarrow> string list \<Rightarrow> string" where
  "fetchUrl cfg batchIds =
     BASE_URL cfg @ ''efetch.fcgi?db=pubmed&id='' @ join '','' batchIds
       @ ''&retmode=xml&api_key='' @ API_KEY cfg"

text \<open>
  The first loop of \<open>fetchArticleDetails\<close> cuts \<open>ids\<close> into batches. With a batch size of
  0 it never ends.
\<close>

partial_function (option) fetchArticleDetails_batches ::
  "config \<Rightarrow> string list \<Rightarrow> nat \<Rightarrow> string list list \<Rightarrow> string list list option" where
  "fetchArticleDetails_batches cfg ids i batches =
     (if i < length ids
      then fetchArticleDetails_batches cfg ids (i + BATCH_SIZE cfg)
             (batches @ [slice i (i + BATCH_SIZE cfg) ids])
      else Some batches)"

declare fetchArticleDetails_batches.simps [code]

text \<open>
  \<open>fetchResult.PubmedArticleSet?.PubmedArticle\<close>, for a document that is not \<open>null\<close>; for
  \<open>null\<close> the loop below raises \<open>TypeError\<close>, as reading \<open>fetchResult.PubmedArticleSet\<close>
  does.
\<close>

definition fetch_PubmedArticle :: "fetch_result \<Rightarrow> pubmed_article field" where
  "fetch_PubmedArticle fetchResult =
     (case PubmedArticleSet fetchResult of None \<Rightarrow> Absent | Some s \<Rightarrow> PubmedArticle s)"

function fetchArticleDetails_loop ::
  "config \<Rightarrow> 'n env \<Rightarrow> string list list \<Rightarrow> nat \<Rightarrow> pubmed_article list \<Rightarrow> 'n world
     \<Rightarrow> (error + pubmed_article list) \<times> 'n world" where
  "fetchArticleDetails_loop cfg env batches i allArticles w =
     (if i < length batches then
        (case fetchWithRetry (get env) (fetchUrl cfg (batches ! i)) 3 (DELAY_MS cfg) w of
           (Thrown err, w') \<Rightarrow> (Inl (RequestError err), w')
         | (ReturnedUndefined, w') \<Rightarrow> (Inl TypeError, w')
         | (Returned fetchResponse, w') \<Rightarrow>
             (case parseXml_fetch env (data fetchResponse) of
                Inl err \<Rightarrow> (Inl (XmlError err), w')
              | Inr None \<Rightarrow> (Inl TypeError, w')
              | Inr (Some fetchResult) \<Rightarrow>
                  fetchArticleDetails_loop cfg env batches (i + 1)
                    (if truthy_field (\<lambda>a. True) (fetch_PubmedArticle fetchResult)
                     then allArticles @ as_array (fetch_PubmedArticle fetchResult)
                     else allArticles)
                    (if i < length batches - 1 then delay (DELAY_MS cfg) w' else w')))
      else (Inr allArticles, w))"
  by pat_completeness auto
termination
  by (relation "measure (\<lambda>(cfg, env, batches, i, allArticles, w). length batches - i)") auto

declare fetchArticleDetails_loop.simps [simp del]

definition fetchArticleDetails ::
  "config \<Rightarrow> 'n env \<Rightarrow> string list \<Rightarrow> 'n world
     \<Rightarrow> ((error + pubmed_article list) \<times> 'n world) option" where
  "fetchArticleDetails cfg env ids w =
     (case fetchArticleDetails_batches cfg ids 0 [] of
        None \<Rightarrow> None
      | Some batches \<Rightarrow> Some (fetchArticleDetails_loop cfg env batches 0 [] w))"

subsection \<open>Title validation\<close>

text \<open>
  A title is a string or, when the element carries markup, an object whose text is in
  the field \<open>_\<close>; the string conversion of such an object is \<open>[object Object]\<close>.
\<close>

definition normalizeTitle :: "'n env \<Rightarrow> title option \<Rightarrow> string" where
  "normalizeTitle env title =
     (case title of
        Some (TitleObject text) \<Rightarrow>
          toLowerCase env (trim env (or_else text (or_else (Some ''[object Object]'') [])))
      | Some (TitleString str) \<Rightarrow> toLowerCase env (trim env (or_else (Some str) []))
      | None \<Rightarrow> toLowerCase env (trim env (or_else None [])))"

definition validateTitle :: "config \<Rightarrow> 'n env \<Rightarrow> title option \<Rightarrow> bool" where
  "validateTitle cfg env title =
     list_ex (\<lambda>keyword. includes_str (normalizeTitle env title) (toLowerCase env keyword))
       (KEYWORDS (SEARCH_TERMS cfg))"

text \<open>\<open>article?.MedlineCitation?.Article\<close>\<close>

definition article_Article :: "pubmed_article \<Rightarrow> article_data option" where
  "article_Article article =
     (case MedlineCitation article of None \<Rightarrow> None | Some c \<Rightarrow> Article c)"

definition article_title :: "pubmed_article \<Rightarrow> title option" where
  "article_title article =
     (case article_Article article of None \<Rightarrow> None | Some a \<Rightarrow> ArticleTitle a)"

definition truthy_title :: "title option \<Rightarrow> bool" where
  "truthy_title title =
     (case title of
        None \<Rightarrow> False
      | Some (TitleString str) \<Rightarrow> str \<noteq> []
      | Some (TitleObject text) \<Rightarrow> True)"

text \<open>The index argument of \<open>validateArticleData\<close> is used in the warnings only.\<close>

definition validateArticleData :: "config \<Rightarrow> 'n env \<Rightarrow> pubmed_article \<Rightarrow> bool" where
  "validateArticleData cfg env article =
     (if \<not> truthy_title (article_title article) then False
      else if \<not> validateTitle cfg env
                 (Some (TitleString (normalizeTitle env (article_title article))))
      then False
      else True)"

subsection \<open>Author aggregation\<close>

text \<open>
  A JavaScript \<open>Set\<close> of strings is the list of its elements in insertion order, a \<open>Map\<close>
  with string keys the list of its entries in insertion order (\<open>has\<close> and \<open>get\<close> are
  \<open>map_of\<close>, \<open>set\<close> is \<open>AList.update\<close>). The entry objects are mutated in place, which is
  \<open>AList.map_entry\<close> on the map.
\<close>

record entry =
  affiliations :: "string list"
  titles :: "string list"

type_synonym author_map = "(string \<times> entry) list"

definition set_add :: "string \<Rightarrow> string list \<Rightarrow> string list" where
  "set_add x xs = (if x \<in> set xs then xs else xs @ [x])"

definition formatAuthorName :: "author \<Rightarrow> string" where
  "formatAuthorName author =
     (if truthy (LastName author) \<and> truthy (ForeName author)
      then the (ForeName author) @ '' '' @ the (LastName author)
      else if truthy (LastName author) then the (LastName author)
      else if truthy (CollectiveName author) then the (CollectiveName author)
      else [])"

definition addAffiliations :: "author \<Rightarrow> string list \<Rightarrow> string list" where
  "addAffiliations author affiliationSet =
     (if \<not> truthy_field (\<lambda>i. True) (AffiliationInfo author) then affiliationSet
      else fold (\<lambda>info acc. if truthy (Affiliation info)
                             then set_add (the (Affiliation info)) acc else acc)
             (as_array (AffiliationInfo author)) affiliationSet)"

text \<open>The body of the inner \<open>forEach\<close>, for one author of an article.\<close>

definition extractAuthorInfo_author :: "string \<Rightarrow> author \<Rightarrow> author_map \<Rightarrow> author_map" where
  "extractAuthorInfo_author titleWithYear author authorMap =
     (let fullName = formatAuthorName author in
      if fullName = [] then authorMap
      else
        AList.map_entry fullName
          (\<lambda>e. e\<lparr>affiliations := addAffiliations author (affiliations e)\<rparr>)
          (AList.map_entry fullName
             (\<lambda>e. e\<lparr>titles := set_add titleWithYear (titles e)\<rparr>)
             (if map_of authorMap fullName = None
              then AList.update fullName \<lparr>affiliations = [], titles = []\<rparr> authorMap
              else authorMap)))"

definition article_year :: "article_data \<Rightarrow> string" where
  "article_year articleData =
     or_else
       (case Journal articleData of
          None \<Rightarrow> None
        | Some j \<Rightarrow>
            (case JournalIssue j of
               None \<Rightarrow> None
             | Some i \<Rightarrow> (case PubDate i of None \<Rightarrow> None | Some d \<Rightarrow> Year d)))
       []"

definition article_authors :: "article_data \<Rightarrow> author field" where
  "article_authors articleData =
     (case AuthorList articleData of None \<Rightarrow> Absent | Some l \<Rightarrow> Author l)"

text \<open>
  The body of the outer \<open>forEach\<close>, for one article. The source reads
  \<open>article.MedlineCitation.Article\<close> without guarding it; validation has established that
  it is there (lemma \<open>validated_has_Article\<close> below), so the branch \<open>None\<close> is not taken.
\<close>

definition extractAuthorInfo_article ::
  "config \<Rightarrow> 'n env \<Rightarrow> pubmed_article \<Rightarrow> author_map \<Rightarrow> author_map" where
  "extractAuthorInfo_article cfg env article authorMap =
     (if \<not> validateArticleData cfg env article then authorMap
      else
        (case article_Article article of
           None \<Rightarrow> authorMap
         | Some articleData \<Rightarrow>
             (let title = normalizeTitle env (ArticleTitle articleData);
                  year = article_year articleData;
                  titleWithYear = title @ '' ('' @ year @ '')''
              in if \<not> truthy_field (\<lambda>a. True) (article_authors articleData) then authorMap
                 else fold (extractAuthorInfo_author titleWithYear)
                        (as_array (article_authors articleData)) authorMap)))"

definition extractAuthorInfo :: "config \<Rightarrow> 'n env \<Rightarrow> pubmed_article list \<Rightarrow> author_map" where
  "extractAuthorInfo cfg env articles = fold (extractAuthorInfo_article cfg env) articles []"

section \<open>Vocabulary of the properties\<close>

text \<open>
  The remote side is deterministic in its state, so what a run of consecutive requests
  to one URL would meet can be read off beforehand: \<open>net_after g url k n\<close> is the state
  after \<open>k\<close> such requests from state \<open>n\<close>, \<open>outcome g url n i\<close> the result of request
  number \<open>i\<close> (from 0), and \<open>asked g url n k\<close> the first \<open>k\<close> requests with their results.
  \<open>requests\<close> keeps the requests of a trace and drops the delays. \<open>query_ok\<close>: the
  search filter has no malformed escape sequence, so that the first progress message of
  \<open>searchArticles\<close> can be built.
\<close>

definition query_ok :: "config \<Rightarrow> 'n env \<Rightarrow> bool" where
  "query_ok cfg env \<longleftrightarrow> decodeURIComponent env (buildSearchFilters cfg) \<noteq> None"

fun net_after :: "'n getter \<Rightarrow> string \<Rightarrow> nat \<Rightarrow> 'n \<Rightarrow> 'n" where
  "net_after g url 0 n = n"
| "net_after g url (Suc k) n = net_after g url k (snd (g n url))"

definition outcome :: "'n getter \<Rightarrow> string \<Rightarrow> 'n \<Rightarrow> nat \<Rightarrow> string + response" where
  "outcome g url n i = fst (g (net_after g url i n) url)"

definition asked :: "'n getter \<Rightarrow> string \<Rightarrow> 'n \<Rightarrow> nat \<Rightarrow> (string \<times> (string + response)) list" where
  "asked g url n k = map (\<lambda>i. (url, outcome g url n i)) [0..<k]"

fun requests :: "event list \<Rightarrow> (string \<times> (string + response)) list" where
  "requests [] = []"
| "requests (Delay ms # es) = requests es"
| "requests (Get url res # es) = (url, res) # requests es"

text \<open>
  \<open>received\<close> keeps, of a list of requests, those that succeeded, with their responses.
  \<open>decoded env r\<close>: the body of the response \<open>r\<close> to a fetch decodes to a document.
  \<open>records env r\<close> is the sequence of article records of such a response: the articles
  of the decoded document, one, many or none.
\<close>

fun received :: "(string \<times> (string + response)) list \<Rightarrow> (string \<times> response) list" where
  "received [] = []"
| "received ((url, Inr r) # xs) = (url, r) # received xs"
| "received ((url, Inl e) # xs) = received xs"

definition decoded :: "'n env \<Rightarrow> response \<Rightarrow> bool" where
  "decoded env r \<longleftrightarrow> (\<exists>fetchResult. parseXml_fetch env (data r) = Inr (Some fetchResult))"

definition records :: "'n env \<Rightarrow> response \<Rightarrow> pubmed_article list" where
  "records env r =
     (case parseXml_fetch env (data r) of
        Inr (Some fetchResult) \<Rightarrow> as_array (fetch_PubmedArticle fetchResult)
      | _ \<Rightarrow> [])"

text \<open>
  A name part is present when the field is there and is not the empty string (an empty
  element decodes to \<open>''\<close>, which JavaScript treats like a missing field), and absent
  otherwise. \<open>contains_ci lower h n\<close>: the string \<open>h\<close> contains \<open>n\<close> as a substring up
  to the case of the letters, that is, some substring of \<open>h\<close> and \<open>n\<close> have the same
  lower-case form. \<open>case_stable lower\<close>: no part of a string in lower case is changed by
  putting it in lower case. The built-in has this property: it maps each character to
  characters that it leaves alone wherever they stand (its one rule that looks at the
  neighbours is for the capital sigma, which no string in lower case holds).
\<close>

definition present :: "string option \<Rightarrow> string \<Rightarrow> bool" where
  "present v s \<longleftrightarrow> v = Some s \<and> s \<noteq> []"

definition absent :: "string option \<Rightarrow> bool" where
  "absent v \<longleftrightarrow> v = None \<or> v = Some []"

definition contains_ci :: "(string \<Rightarrow> string) \<Rightarrow> string \<Rightarrow> string \<Rightarrow> bool" where
  "contains_ci lower h n \<longleftrightarrow> (\<exists>p u s. h = p @ u @ s \<and> lower u = lower n)"

definition case_stable :: "(string \<Rightarrow> string) \<Rightarrow> bool" where
  "case_stable lower \<longleftrightarrow> (\<forall>x p u s. lower x = p @ u @ s \<longrightarrow> lower u = u)"

text \<open>
  \<open>authors_of\<close> is the author list of an article, normalized to a sequence, and
  \<open>affiliations_of\<close> the non-empty affiliation strings of an author, in order. An author
  of an article with title-year string \<open>t\<close> is settled in an aggregate when processing
  that author would add nothing: the name is empty, or its entry already holds \<open>t\<close> and
  all the affiliations. \<open>entries_distinct\<close>: no entry lists an affiliation or a title
  twice.
\<close>

definition authors_of :: "pubmed_article \<Rightarrow> author list" where
  "authors_of article =
     (case article_Article article of
        None \<Rightarrow> []
      | Some articleData \<Rightarrow> as_array (article_authors articleData))"

definition affiliations_of :: "author \<Rightarrow> string list" where
  "affiliations_of a =
     map (\<lambda>info. the (Affiliation info))
       (filter (\<lambda>info. truthy (Affiliation info)) (as_array (AffiliationInfo a)))"

definition settled :: "string \<Rightarrow> author \<Rightarrow> author_map \<Rightarrow> bool" where
  "settled t a m \<longleftrightarrow>
     formatAuthorName a = []
     \<or> (\<exists>e. map_of m (formatAuthorName a) = Some e
            \<and> t \<in> set (titles e) \<and> set (affiliations_of a) \<subseteq> set (affiliations e))"

definition entries_distinct :: "author_map \<Rightarrow> bool" where
  "entries_distinct m \<longleftrightarrow>
     (\<forall>(name, e)\<in>set m. distinct (affiliations e) \<and> distinct (titles e))"

section \<open>Sample inputs\<close>

text \<open>
  A remote side that plays a script: its state is the list of the results still to be
  given, one per request; when the script is over every request fails.
\<close>

definition scripted :: "(string + response) list getter" where
  "scripted n url = (case n of [] \<Rightarrow> (Inl ''ECONNRESET'', []) | r # rs \<Rightarrow> (r, rs))"

definition uri_char :: "char \<Rightarrow> string" where
  "uri_char c =
     (if c = CHR '' '' then ''%20'' else if c = CHR 0x22 then ''%22''
      else if c = CHR ''['' then ''%5B'' else if c = CHR '']'' then ''%5D''
      else if c = CHR '':'' then ''%3A'' else [c])"

definition page :: "string list \<Rightarrow> search_result" where
  "page ids = \<lparr>eSearchResult = Some \<lparr>IdList = Some \<lparr>Id' = Many ids\<rparr>\<rparr>\<rparr>"

text \<open>
  A parser for a few bodies: the empty body gives \<open>null\<close>, as the XML parser does; the
  bodies named below give the documents named; any other body is rejected.
\<close>

definition demo_parseXml_search :: "string \<Rightarrow> string + search_result option" where
  "demo_parseXml_search d =
     (if d = [] then Inr None
      else if d = ''full'' then Inr (Some (page (replicate 500 ''31452104'')))
      else if d = ''rest'' then Inr (Some (page (replicate 237 ''29083409'')))
      else if d = ''none'' then Inr (Some \<lparr>eSearchResult = Some \<lparr>IdList = None\<rparr>\<rparr>)
      else Inl ''Unexpected end'')"

text \<open>
  Two articles: the one of the specification's end-to-end example, and one whose title
  holds no keyword. The author \<open>consortium\<close> has a collective name only, \<open>nameless\<close> no
  name at all.
\<close>

definition article_of :: "title option \<Rightarrow> string option \<Rightarrow> author field \<Rightarrow> pubmed_article" where
  "article_of t y as =
     \<lparr>MedlineCitation = Some \<lparr>Article = Some
        \<lparr>ArticleTitle = t,
         Journal = Some \<lparr>JournalIssue = Some \<lparr>PubDate = Some \<lparr>Year = y\<rparr>\<rparr>\<rparr>,
         AuthorList = Some \<lparr>Author = as\<rparr>\<rparr>\<rparr>\<rparr>"

definition jane :: author where
  "jane = \<lparr>LastName = Some ''Smith'', ForeName = Some ''Jane'', CollectiveName = None,
           AffiliationInfo = Many [\<lparr>Affiliation = Some ''MIT''\<rparr>, \<lparr>Affiliation = Some ''MIT''\<rparr>]\<rparr>"

definition consortium :: author where
  "consortium = \<lparr>LastName = None, ForeName = None, CollectiveName = Some ''ENCODE'',
                 AffiliationInfo = Absent\<rparr>"

definition nameless :: author where
  "nameless = \<lparr>LastName = None, ForeName = Some ''Ann'', CollectiveName = None,
               AffiliationInfo = Single \<lparr>Affiliation = Some ''ETH''\<rparr>\<rparr>"

definition gene_article :: pubmed_article where
  "gene_article =
     article_of (Some (TitleString ''A Study of Gene X Regulation'')) (Some ''2020'')
       (Many [jane, consortium, nameless])"

definition other_article :: pubmed_article where
  "other_article =
     article_of (Some (TitleString ''Protein folding'')) (Some ''2021'')
       (Single \<lparr>LastName = Some ''Doe'', ForeName = None, CollectiveName = None,
                  AffiliationInfo = Absent\<rparr>)"

definition demo_parseXml_fetch :: "string \<Rightarrow> string + fetch_result option" where
  "demo_parseXml_fetch d =
     (if d = [] then Inr None
      else if d = ''two''
      then Inr (Some \<lparr>PubmedArticleSet = Some \<lparr>PubmedArticle = Many [gene_article, other_article]\<rparr>\<rparr>)
      else if d = ''one''
      then Inr (Some \<lparr>PubmedArticleSet = Some \<lparr>PubmedArticle = Single gene_article\<rparr>\<rparr>)
      else if d = ''empty'' then Inr (Some \<lparr>PubmedArticleSet = None\<rparr>)
      else Inl ''Unexpected end'')"

text \<open>
  Stand-ins for the two string methods, which agree with the built-ins on strings of
  ASCII characters: the letters A to Z are folded, and the blanks are the six ASCII ones.
\<close>

definition ascii_lower_char :: "char \<Rightarrow> char" where
  "ascii_lower_char c =
     (if 65 \<le> (of_char c :: nat) \<and> (of_char c :: nat) \<le> 90
      then char_of ((of_char c :: nat) + 32) else c)"

definition ascii_toLowerCase :: "string \<Rightarrow> string" where
  "ascii_toLowerCase s = map ascii_lower_char s"

definition ascii_space :: "char \<Rightarrow> bool" where
  "ascii_space c = ((of_char c :: nat) \<in> {9, 10, 11, 12, 13, 32})"

definition ascii_trim :: "string \<Rightarrow> string" where
  "ascii_trim s = rev (dropWhile ascii_space (rev (dropWhile ascii_space s)))"

definition demo_env :: "'n getter \<Rightarrow> 'n env" where
  "demo_env g =
     \<lparr>get = g,
      parseXml_search = demo_parseXml_search,
      parseXml_fetch = demo_parseXml_fetch,
      encodeURIComponent = (\<lambda>s. concat (map uri_char s)),
      decodeURIComponent = (\<lambda>s. if CHR ''%'' \<in> set s then None else Some s),
      toLowerCase = ascii_toLowerCase,
      trim = ascii_trim\<rparr>"

definition demo_cfg :: config where
  "demo_cfg =
     \<lparr>BASE_URL = ''https://eutils.ncbi.nlm.nih.gov/entrez/eutils/'',
      API_KEY = ''key'',
      BATCH_SIZE = 2,
      DELAY_MS = 1000,
      PUBLICATION_YEARS = \<lparr>START = ''2020'', END = ''2024''\<rparr>,
      MAX_RESULTS = 1000,
      DEFAULT_RETMAX = 500,
      SEARCH_TERMS = \<lparr>QUERY = ''gene'', PUBLICATION_TYPES = [''Review''], KEYWORDS = [''gene'']\<rparr>\<rparr>"

definition always :: "response \<Rightarrow> unit getter" where
  "always r n url = (Inr r, n)"

definition full_page :: response where
  "full_page = \<lparr>data = ''full''\<rparr>"



definition empty_page :: response where
  "empty_page = \<lparr>data = ''none''\<rparr>"


definition two_articles :: response where
  "two_articles = \<lparr>data = ''two''\<rparr>"

definition no_articles :: response where
  "no_articles = \<lparr>data = ''empty''\<rparr>"

definition blank :: response where
  "blank = \<lparr>data = []\<rparr>"

section \<open>Properties of the retry client\<close>

lemma requests_append [simp]: "requests (xs @ ys) = requests xs @ requests ys"
  by (induction xs rule: requests.induct) auto


lemma net_delay [simp]: "net (delay d w) = net w"
  by (simp add: delay_def)

lemma requests_delay [simp]: "requests (trace (delay d w)) = requests (trace w)"
  by (simp add: delay_def)

lemma axios_get_eq:
  "axios_get g url w = (fst (g (net w) url), \<lparr>net = snd (g (net w) url), trace = trace w @ [Get url (fst (g (net w) url))]\<rparr>)"
  by (simp add: axios_get_def split: prod.splits)

lemma loop_exit: "\<not> a < retries \<Longrightarrow> fetchWithRetry_loop g url retries d a w = (ReturnedUndefined, w)"
  by (simp add: fetchWithRetry_loop.simps)

lemma loop_success:
  "a < retries \<Longrightarrow> axios_get g url (if a > 0 then delay d w else w) = (Inr r, w2)
   \<Longrightarrow> fetchWithRetry_loop g url retries d a w = (Returned r, w2)"
  by (subst fetchWithRetry_loop.simps) simp

lemma loop_last:
  "a < retries \<Longrightarrow> axios_get g url (if a > 0 then delay d w else w) = (Inl e, w2)
   \<Longrightarrow> a + 1 = retries \<Longrightarrow> fetchWithRetry_loop g url retries d a w = (Thrown e, w2)"
  by (subst fetchWithRetry_loop.simps) simp

lemma loop_retry:
  "a < retries \<Longrightarrow> axios_get g url (if a > 0 then delay d w else w) = (Inl e, w2)
   \<Longrightarrow> a + 1 \<noteq> retries
   \<Longrightarrow> fetchWithRetry_loop g url retries d a w
       = fetchWithRetry_loop g url retries d (a + 1) (delay d w2)"
  by (subst fetchWithRetry_loop.simps) simp

lemma outcome_0: "outcome g url n 0 = fst (g n url)"
  by (simp add: outcome_def)

lemma outcome_Suc: "outcome g url n (Suc i) = outcome g url (snd (g n url)) i"
  by (simp add: outcome_def)

lemma asked_Suc: "asked g url n (Suc k) = (url, fst (g n url)) # asked g url (snd (g n url)) k"
  unfolding asked_def
  by (simp add: upt_conv_Cons map_Suc_upt[symmetric] outcome_0 outcome_Suc del: upt_Suc)

lemma loop_succeeds:
  "k + a < retries \<Longrightarrow> \<forall>i<k. isl (outcome g url (net w) i) \<Longrightarrow> outcome g url (net w) k = Inr r
   \<Longrightarrow> \<exists>w'. fetchWithRetry_loop g url retries d a w = (Returned r, w')
         \<and> net w' = net_after g url (Suc k) (net w)
         \<and> requests (trace w') = requests (trace w) @ asked g url (net w) (Suc k)"
proof (induction k arbitrary: a w)
  case 0
  let ?w1 = "if a > 0 then delay d w else w"
  from 0 have "axios_get g url ?w1 = (Inr r, snd (axios_get g url ?w1))"
    by (simp add: axios_get_eq outcome_0)
  from loop_success[OF _ this] 0 show ?case
    by (simp add: axios_get_eq asked_def outcome_0)
next
  case (Suc k)
  let ?w1 = "if a > 0 then delay d w else w"
  let ?w2 = "snd (axios_get g url ?w1)"
  from Suc.prems obtain e where e: "fst (g (net w) url) = Inl e"
    by (auto simp: outcome_0 isl_def dest: spec[of _ 0])
  then have ag: "axios_get g url ?w1 = (Inl e, ?w2)"
    by (simp add: axios_get_eq)
  have n2: "net ?w2 = snd (g (net w) url)" by (simp add: axios_get_eq)
  have step: "fetchWithRetry_loop g url retries d a w
        = fetchWithRetry_loop g url retries d (a + 1) (delay d ?w2)"
    using Suc.prems(1) by (intro loop_retry[OF _ ag]) auto
  have "\<exists>w'. fetchWithRetry_loop g url retries d (a + 1) (delay d ?w2) = (Returned r, w')
         \<and> net w' = net_after g url (Suc k) (net (delay d ?w2))
         \<and> requests (trace w') = requests (trace (delay d ?w2)) @ asked g url (net (delay d ?w2)) (Suc k)"
  proof (rule Suc.IH)
    show "k + (a + 1) < retries" using Suc.prems(1) by simp
    show "\<forall>i<k. isl (outcome g url (net (delay d ?w2)) i)"
      using Suc.prems(2) by (auto simp: n2 outcome_Suc[symmetric])
    show "outcome g url (net (delay d ?w2)) k = Inr r"
      using Suc.prems(3) by (simp add: n2 outcome_Suc)
  qed
  then obtain w' where w': "fetchWithRetry_loop g url retries d (a + 1) (delay d ?w2) = (Returned r, w')"
     "net w' = net_after g url (Suc k) (net (delay d ?w2))"
     "requests (trace w') = requests (trace (delay d ?w2)) @ asked g url (net (delay d ?w2)) (Suc k)"
    by blast
  have "requests (trace ?w2) = requests (trace w) @ [(url, fst (g (net w) url))]"
    by (simp add: axios_get_eq)
  with w' step n2 show ?case
    by (simp add: asked_Suc[of g url "net w"])
qed

lemma loop_exhausts:
  "a < retries \<Longrightarrow> \<forall>i<retries - a. isl (outcome g url (net w) i)
   \<Longrightarrow> \<exists>w'. fetchWithRetry_loop g url retries d a w
              = (Thrown (projl (outcome g url (net w) (retries - a - 1))), w')
         \<and> net w' = net_after g url (retries - a) (net w)
         \<and> requests (trace w') = requests (trace w) @ asked g url (net w) (retries - a)"
proof (induction "retries - a" arbitrary: a w)
  case 0
  then show ?case by simp
next
  case (Suc m)
  let ?w1 = "if a > 0 then delay d w else w"
  let ?w2 = "snd (axios_get g url ?w1)"
  from Suc.prems Suc.hyps(2) obtain e where e: "fst (g (net w) url) = Inl e"
    by (auto simp: outcome_0 isl_def dest: spec[of _ 0])
  then have ag: "axios_get g url ?w1 = (Inl e, ?w2)"
    by (simp add: axios_get_eq)
  have n2: "net ?w2 = snd (g (net w) url)" by (simp add: axios_get_eq)
  have r2: "requests (trace ?w2) = requests (trace w) @ [(url, fst (g (net w) url))]"
    by (simp add: axios_get_eq)
  show ?case
  proof (cases "a + 1 = retries")
    case True
    then have m: "retries - a = Suc 0" by simp
    from loop_last[OF Suc.prems(1) ag True] e n2 r2 show ?thesis
      by (simp add: m asked_def outcome_0)
  next
    case False
    have step: "fetchWithRetry_loop g url retries d a w
        = fetchWithRetry_loop g url retries d (a + 1) (delay d ?w2)"
      by (rule loop_retry[OF Suc.prems(1) ag False])
    have m: "m = retries - (a + 1)" using Suc.hyps(2) by simp
    have lt: "a + 1 < retries" using False Suc.prems(1) by simp
    have all: "\<forall>i<retries - (a + 1). isl (outcome g url (net (delay d ?w2)) i)"
      using Suc.prems(2) by (auto simp: n2 outcome_Suc[symmetric])
    from Suc.hyps(1)[OF m lt all] obtain w' where w':
      "fetchWithRetry_loop g url retries d (a + 1) (delay d ?w2)
         = (Thrown (projl (outcome g url (net (delay d ?w2)) (retries - (a + 1) - 1))), w')"
      "net w' = net_after g url (retries - (a + 1)) (net (delay d ?w2))"
      "requests (trace w') = requests (trace (delay d ?w2)) @ asked g url (net (delay d ?w2)) (retries - (a + 1))"
      by blast
    obtain j where j: "retries - a - 1 = Suc j" "retries - (a + 1) - 1 = j"
      using lt by (cases "retries - a - 1") auto
    have oc: "outcome g url (net w) (retries - a - 1)
                = outcome g url (net (delay d ?w2)) (retries - (a + 1) - 1)"
      unfolding j by (simp add: n2 outcome_Suc)
    have idx: "retries - a = Suc (retries - (a + 1))"
      using lt by simp
    have as: "asked g url (net w) (retries - a)
                = (url, fst (g (net w) url)) # asked g url (net (delay d ?w2)) (retries - (a + 1))"
      unfolding idx by (simp add: asked_Suc n2)
    have nn: "net_after g url (retries - a) (net w)
                = net_after g url (retries - (a + 1)) (net (delay d ?w2))"
      unfolding idx by (simp add: n2)
    show ?thesis
      unfolding step oc as nn using w' r2 by simp
  qed
qed


lemma first_failure:
  fixes n :: nat
  shows "\<not> (\<forall>i<n. isl (f i)) \<Longrightarrow> \<exists>k<n. (\<forall>i<k. isl (f i)) \<and> \<not> isl (f k)"
proof -
  assume "\<not> (\<forall>i<n. isl (f i))"
  then have "\<exists>k. k < n \<and> \<not> isl (f k)" by blast
  then obtain k where k: "k < n \<and> \<not> isl (f k)" "\<forall>j<k. \<not> (j < n \<and> \<not> isl (f j))"
    unfolding exists_least_iff[of "\<lambda>k. k < n \<and> \<not> isl (f k)"] by blast
  then have "\<forall>i<k. isl (f i)" by auto
  with k show ?thesis by blast
qed

lemma fetchWithRetry_cases:
  assumes "0 < retries"
  shows "(\<exists>k r w'. k < retries \<and> (\<forall>i<k. isl (outcome g url (net w) i))
            \<and> outcome g url (net w) k = Inr r
            \<and> fetchWithRetry g url retries d w = (Returned r, w')
            \<and> net w' = net_after g url (Suc k) (net w)
            \<and> requests (trace w') = requests (trace w) @ asked g url (net w) (Suc k))
       \<or> ((\<forall>i<retries. isl (outcome g url (net w) i))
            \<and> (\<exists>w'. fetchWithRetry g url retries d w
                        = (Thrown (projl (outcome g url (net w) (retries - 1))), w')
                  \<and> net w' = net_after g url retries (net w)
                  \<and> requests (trace w') = requests (trace w) @ asked g url (net w) retries))"
proof (cases "\<forall>i<retries. isl (outcome g url (net w) i)")
  case True
  with loop_exhausts[of 0 retries g url w d] assms show ?thesis
    by (simp add: fetchWithRetry_def)
next
  case False
  from first_failure[OF False] obtain k where k: "k < retries"
    "\<forall>i<k. isl (outcome g url (net w) i)" "\<not> isl (outcome g url (net w) k)" by blast
  then obtain r where r: "outcome g url (net w) k = Inr r"
    by (cases "outcome g url (net w) k") auto
  from loop_succeeds[of k 0 retries g url w r d] k r
  obtain w' where "fetchWithRetry g url retries d w = (Returned r, w')"
    "net w' = net_after g url (Suc k) (net w)"
    "requests (trace w') = requests (trace w) @ asked g url (net w) (Suc k)"
    by (auto simp: fetchWithRetry_def)
  with k r show ?thesis by blast
qed

lemma search_exit:
  "\<not> retStart < MAX_RESULTS cfg
   \<Longrightarrow> searchArticles_loop cfg env allIds retStart w = Some (None, allIds, w)"
  by (subst searchArticles_loop.simps) simp


lemma search_no_ids:
  "retStart < MAX_RESULTS cfg
   \<Longrightarrow> fetchWithRetry (get env) (searchUrl cfg env retStart) 3 (DELAY_MS cfg) w = (Returned r, w')
   \<Longrightarrow> parseXml_search env (data r) = Inr (Some sr)
   \<Longrightarrow> \<not> truthy_field (\<lambda>s. s \<noteq> []) (search_Id sr)
   \<Longrightarrow> query_ok cfg env
   \<Longrightarrow> searchArticles_loop cfg env allIds retStart w = Some (None, allIds, w')"
  by (subst searchArticles_loop.simps) (auto simp: query_ok_def)

lemma search_null_page:
  "retStart < MAX_RESULTS cfg
   \<Longrightarrow> fetchWithRetry (get env) (searchUrl cfg env retStart) 3 (DELAY_MS cfg) w = (Returned r, w')
   \<Longrightarrow> parseXml_search env (data r) = Inr None
   \<Longrightarrow> query_ok cfg env
   \<Longrightarrow> searchArticles_loop cfg env allIds retStart w = Some (Some TypeError, allIds, w')"
  by (subst searchArticles_loop.simps) (auto simp: query_ok_def)


lemma search_full_page:
  "retStart < MAX_RESULTS cfg
   \<Longrightarrow> fetchWithRetry (get env) (searchUrl cfg env retStart) 3 (DELAY_MS cfg) w = (Returned r, w')
   \<Longrightarrow> parseXml_search env (data r) = Inr (Some sr)
   \<Longrightarrow> truthy_field (\<lambda>s. s \<noteq> []) (search_Id sr)
   \<Longrightarrow> \<not> length (as_array (search_Id sr)) < DEFAULT_RETMAX cfg
   \<Longrightarrow> query_ok cfg env
   \<Longrightarrow> searchArticles_loop cfg env allIds retStart w
         = searchArticles_loop cfg env (allIds @ as_array (search_Id sr))
             (retStart + DEFAULT_RETMAX cfg)
             (if retStart + DEFAULT_RETMAX cfg < MAX_RESULTS cfg
              then delay (DELAY_MS cfg) w' else w')"
  by (subst searchArticles_loop.simps) (auto simp: query_ok_def)

lemma fetchWithRetry_first:
  "0 < retries \<Longrightarrow> g (net w) url = (Inr r, n')
   \<Longrightarrow> fetchWithRetry g url retries d w
         = (Returned r, \<lparr>net = n', trace = trace w @ [Get url (Inr r)]\<rparr>)"
  unfolding fetchWithRetry_def
  by (rule loop_success) (simp_all add: axios_get_def)

lemma demo_query_ok: "query_ok (demo_cfg\<lparr>MAX_RESULTS := k\<rparr>) (demo_env g)" "query_ok demo_cfg (demo_env g)"
  by (simp_all add: query_ok_def demo_env_def demo_cfg_def buildSearchFilters_def)

text \<open>
  C2. The claim is that one wait of \<open>delayMs\<close> separates two consecutive attempts. At
  the input below the first attempt fails and the second succeeds: the handler of the
  failure waits \<open>delayMs\<close>, and the next turn of the loop, finding \<open>attempt > 0\<close>, waits
  \<open>delayMs\<close> again before it sends the request. Two waits separate the two attempts
  (there is none before the first).
\<close>

theorem retry_waits_twice:
  "fetchWithRetry scripted ''u'' 3 1000
     \<lparr>net = [Inl ''ETIMEDOUT'', Inr \<lparr>data = ''ok''\<rparr>], trace = []\<rparr>
   = (Returned \<lparr>data = ''ok''\<rparr>,
      \<lparr>net = [],
       trace = [Get ''u'' (Inl ''ETIMEDOUT''), Delay 1000, Delay 1000,
                Get ''u'' (Inr \<lparr>data = ''ok''\<rparr>)]\<rparr>)"
  by (simp add: fetchWithRetry_def fetchWithRetry_loop.simps axios_get_def delay_def scripted_def)


section \<open>Properties of the search\<close>

lemma searchUrl_inj:
  "searchUrl cfg env a = searchUrl cfg env b \<Longrightarrow> show_nat a = show_nat b"
  by (simp add: searchUrl_def)

lemma show_nat_1000: "show_nat 1000 \<noteq> show_nat 0" "show_nat 1000 \<noteq> show_nat 500"
  by (simp_all add: show_nat.simps digit_char_def)

text \<open>
  C1 (as amended). With a cap of 1000 and a page size of 500, against a remote side
  whose every answer is a full page of 500 identifiers (and with a search filter that
  \<open>decodeURIComponent\<close> accepts), \<open>searchArticles\<close> sends exactly two requests, for the
  offsets 0 and 500, with one delay between them, and returns 1000 identifiers. After the second page the offset is 1000, the test \<open>retStart < MAX_RESULTS\<close>
  at the head of the loop fails, and no request for the offset 1000 is sent.
\<close>

theorem search_cap_two_pages:
  assumes cap: "MAX_RESULTS cfg = 1000" and size: "DEFAULT_RETMAX cfg = 500"
    and qok: "query_ok cfg env"
    and full: "\<forall>n u. \<exists>r n' sr. get env n u = (Inr r, n')
                 \<and> parseXml_search env (data r) = Inr (Some sr)
                 \<and> truthy_field (\<lambda>s. s \<noteq> []) (search_Id sr)
                 \<and> length (as_array (search_Id sr)) = 500"
  shows "\<exists>r0 r1 ids w'.
           searchArticles cfg env w = Some (Inr ids, w')
         \<and> length ids = 1000
         \<and> trace w' = trace w @ [Get (searchUrl cfg env 0) (Inr r0), Delay (DELAY_MS cfg),
                                   Get (searchUrl cfg env 500) (Inr r1)]
         \<and> (\<forall>res. Get (searchUrl cfg env 1000) res
                      \<notin> {Get (searchUrl cfg env 0) (Inr r0), Delay (DELAY_MS cfg),
                          Get (searchUrl cfg env 500) (Inr r1)})"
proof -
  let ?u0 = "searchUrl cfg env 0" and ?u1 = "searchUrl cfg env 500"
  let ?d = "DELAY_MS cfg"
  from full obtain r0 n1 s0 where p0: "get env (net w) ?u0 = (Inr r0, n1)"
    "parseXml_search env (data r0) = Inr (Some s0)" "truthy_field (\<lambda>s. s \<noteq> []) (search_Id s0)"
    "length (as_array (search_Id s0)) = 500" by blast
  define w1 where "w1 = \<lparr>net = n1, trace = trace w @ [Get ?u0 (Inr r0)]\<rparr>"
  have f0: "fetchWithRetry (get env) ?u0 3 ?d w = (Returned r0, w1)"
    unfolding w1_def by (rule fetchWithRetry_first) (simp_all add: p0)
  from full obtain r1 n2 s1 where p1: "get env (net (delay ?d w1)) ?u1 = (Inr r1, n2)"
    "parseXml_search env (data r1) = Inr (Some s1)" "truthy_field (\<lambda>s. s \<noteq> []) (search_Id s1)"
    "length (as_array (search_Id s1)) = 500" by blast
  define w2 where "w2 = \<lparr>net = n2, trace = trace (delay ?d w1) @ [Get ?u1 (Inr r1)]\<rparr>"
  have f1: "fetchWithRetry (get env) ?u1 3 ?d (delay ?d w1) = (Returned r1, w2)"
    unfolding w2_def by (rule fetchWithRetry_first) (use p1 in simp_all)
  let ?ids = "as_array (search_Id s0) @ as_array (search_Id s1)"
  have "searchArticles_loop cfg env [] 0 w
          = searchArticles_loop cfg env ([] @ as_array (search_Id s0)) (0 + DEFAULT_RETMAX cfg)
              (if 0 + DEFAULT_RETMAX cfg < MAX_RESULTS cfg then delay ?d w1 else w1)"
    by (rule search_full_page[OF _ f0 p0(2) p0(3)]) (simp_all add: cap size p0 qok)
  also have "\<dots> = searchArticles_loop cfg env (as_array (search_Id s0)) 500 (delay ?d w1)"
    by (simp add: cap size)
  also have "\<dots> = searchArticles_loop cfg env ?ids (500 + DEFAULT_RETMAX cfg)
              (if 500 + DEFAULT_RETMAX cfg < MAX_RESULTS cfg then delay ?d w2 else w2)"
    by (rule search_full_page[OF _ f1 p1(2) p1(3)]) (simp_all add: cap size p1 qok)
  also have "\<dots> = searchArticles_loop cfg env ?ids 1000 w2"
    by (simp add: cap size)
  also have "\<dots> = Some (None, ?ids, w2)"
    by (rule search_exit) (simp add: cap)
  finally have loop: "searchArticles_loop cfg env [] 0 w = Some (None, ?ids, w2)" .
  have len: "length ?ids = 1000" by (simp add: p0 p1)
  then have ne: "?ids \<noteq> []" by auto
  have res: "searchArticles cfg env w = Some (Inr ?ids, w2)"
    using loop ne by (simp add: searchArticles_def)
  have tr: "trace w2 = trace w @ [Get ?u0 (Inr r0), Delay ?d, Get ?u1 (Inr r1)]"
    by (simp add: w2_def w1_def delay_def)
  have no: "\<forall>res. Get (searchUrl cfg env 1000) res \<notin> {Get ?u0 (Inr r0), Delay ?d, Get ?u1 (Inr r1)}"
    using show_nat_1000 by (auto dest: searchUrl_inj)
  from res len tr no show ?thesis by blast
qed

theorem search_cap_two_pages_witness:
  "\<exists>r0 r1 ids w'.
           searchArticles demo_cfg (demo_env (always full_page)) \<lparr>net = (), trace = []\<rparr>
             = Some (Inr ids, w')
         \<and> length ids = 1000
         \<and> trace w' = [Get (searchUrl demo_cfg (demo_env (always full_page)) 0) (Inr r0),
                        Delay 1000,
                        Get (searchUrl demo_cfg (demo_env (always full_page)) 500) (Inr r1)]"
proof -
  have cap: "MAX_RESULTS demo_cfg = 1000" and size: "DEFAULT_RETMAX demo_cfg = 500"
    and d: "DELAY_MS demo_cfg = 1000"
    by (simp_all add: demo_cfg_def)
  have full: "\<forall>n u. \<exists>r n' sr. get (demo_env (always full_page)) n u = (Inr r, n')
                 \<and> parseXml_search (demo_env (always full_page)) (data r) = Inr (Some sr)
                 \<and> truthy_field (\<lambda>s. s \<noteq> []) (search_Id sr)
                 \<and> length (as_array (search_Id sr)) = 500"
    by (simp add: demo_env_def always_def full_page_def demo_parseXml_search_def page_def
          search_Id_def)
  from search_cap_two_pages[OF cap size demo_query_ok(2) full, of "\<lparr>net = (), trace = []\<rparr>"]
  show ?thesis unfolding d by auto
qed

text \<open>
  The claim as stated, that the request for the offset 1000 still occurs, fails at this
  input: the trace holds the requests for the offsets 0 and 500 only.
\<close>

theorem search_cap_counterexample:
  "searchArticles demo_cfg (demo_env (always full_page)) \<lparr>net = (), trace = []\<rparr>
     = Some (Inr (replicate 500 ''31452104'' @ replicate 500 ''31452104''),
             \<lparr>net = (),
              trace = [Get (searchUrl demo_cfg (demo_env (always full_page)) 0) (Inr full_page),
                       Delay 1000,
                       Get (searchUrl demo_cfg (demo_env (always full_page)) 500) (Inr full_page)]\<rparr>)
   \<and> searchUrl demo_cfg (demo_env (always full_page)) 1000
        \<notin> {searchUrl demo_cfg (demo_env (always full_page)) 0,
            searchUrl demo_cfg (demo_env (always full_page)) 500}"
proof -
  have a: "searchArticles_loop demo_cfg (demo_env (always full_page)) [] 0 \<lparr>net = (), trace = []\<rparr>
     = Some (None, replicate 500 ''31452104'' @ replicate 500 ''31452104'',
             \<lparr>net = (),
              trace = [Get (searchUrl demo_cfg (demo_env (always full_page)) 0) (Inr full_page),
                       Delay 1000,
                       Get (searchUrl demo_cfg (demo_env (always full_page)) 500) (Inr full_page)]\<rparr>)"
    by (simp add: searchArticles_loop.simps fetchWithRetry_def fetchWithRetry_loop.simps
          axios_get_def delay_def demo_env_def always_def full_page_def demo_parseXml_search_def
          page_def search_Id_def demo_cfg_def buildSearchFilters_def)
  have b: "replicate 500 ''31452104'' @ replicate 500 ''31452104'' \<noteq> []"
    by simp
  have c: "searchUrl demo_cfg (demo_env (always full_page)) 1000
        \<notin> {searchUrl demo_cfg (demo_env (always full_page)) 0,
            searchUrl demo_cfg (demo_env (always full_page)) 500}"
    using show_nat_1000 by (auto dest: searchUrl_inj)
  show ?thesis using a b c unfolding searchArticles_def by simp
qed

lemma loop_error_kind:
  assumes "searchArticles_loop cfg env allIds retStart w = Some y"
  shows "fst y \<noteq> Some (Error msg)"
proof (rule searchArticles_loop.raw_induct
         [where P = "\<lambda>cfg env allIds retStart w y. fst y \<noteq> Some (Error msg)", OF _ assms])
  fix loop :: "config \<Rightarrow> 'a env \<Rightarrow> string list \<Rightarrow> nat \<Rightarrow> 'a world
                 \<Rightarrow> (error option \<times> string list \<times> 'a world) option"
    and cfg env allIds retStart w y
  assume ih: "\<And>cfg env allIds retStart w y.
                loop cfg env allIds retStart w = Some y \<Longrightarrow> fst y \<noteq> Some (Error msg)"
    and step: "(if retStart < MAX_RESULTS cfg then
        (if retStart = 0 \<and> decodeURIComponent env (buildSearchFilters cfg) = None
         then Some (Some URIError, allIds, w)
         else
           (case fetchWithRetry (get env) (searchUrl cfg env retStart) 3 (DELAY_MS cfg) w of
              (Thrown err, w') \<Rightarrow> Some (Some (RequestError err), allIds, w')
            | (ReturnedUndefined, w') \<Rightarrow> Some (Some TypeError, allIds, w')
            | (Returned searchResponse, w') \<Rightarrow>
                (case parseXml_search env (data searchResponse) of
                   Inl err \<Rightarrow> Some (Some (XmlError err), allIds, w')
                 | Inr None \<Rightarrow> Some (Some TypeError, allIds, w')
                 | Inr (Some searchResult) \<Rightarrow>
                     (if \<not> truthy_field (\<lambda>s. s \<noteq> []) (search_Id searchResult)
                      then Some (None, allIds, w')
                      else if length (as_array (search_Id searchResult)) < DEFAULT_RETMAX cfg
                      then Some (None, allIds @ as_array (search_Id searchResult), w')
                      else loop cfg env
                             (allIds @ as_array (search_Id searchResult))
                             (retStart + DEFAULT_RETMAX cfg)
                             (if retStart + DEFAULT_RETMAX cfg < MAX_RESULTS cfg
                              then delay (DELAY_MS cfg) w' else w')))))
      else Some (None, allIds, w)) = Some y"
  from step show "fst y \<noteq> Some (Error msg)"
    by (auto split: if_splits prod.splits fetched.splits sum.splits option.splits dest: ih)
qed

lemma fetchWithRetry_requests:
  assumes "0 < retries" and "fetchWithRetry g url retries d w = (res, w')"
  shows "fst ` set (requests (trace w')) = fst ` set (requests (trace w)) \<union> {url}"
proof -
  have a: "fst ` set (asked g url n (Suc k)) = {url}" for n k
    by (auto simp: asked_def image_iff intro: exI[of _ 0])
  from fetchWithRetry_cases[OF assms(1), of g url w d] assms(2)
  obtain k where "requests (trace w') = requests (trace w) @ asked g url (net w) (Suc k)"
    using assms(1) by (cases retries) auto
  then show ?thesis by (simp add: image_Un a)
qed





text \<open>
  What holds of the error \<open>No article IDs found\<close>: \<open>searchArticles\<close> throws it exactly
  when its loop ends without an exception and with an empty accumulator; and when the
  first page is received and decodes to a document without identifier list, it is thrown
  at once, in the world the first page's request left, no URL other than the search URL
  at offset 0 having been requested.
\<close>

lemma search_no_results_decoded:
  "(searchArticles cfg env w = Some (Inl NoResultsError, w')
      \<longleftrightarrow> searchArticles_loop cfg env [] 0 w = Some (None, [], w'))
   \<and> (0 < MAX_RESULTS cfg \<and> query_ok cfg env
        \<and> fetchWithRetry (get env) (searchUrl cfg env 0) 3 (DELAY_MS cfg) w = (Returned r, w1)
        \<and> parseXml_search env (data r) = Inr (Some sr)
        \<and> (eSearchResult sr = None \<or> (\<exists>e. eSearchResult sr = Some e \<and> IdList e = None))
      \<longrightarrow> searchArticles cfg env w = Some (Inl NoResultsError, w1)
          \<and> fst ` set (requests (trace w1))
               = fst ` set (requests (trace w)) \<union> {searchUrl cfg env 0})"
proof (intro conjI impI)
  show "searchArticles cfg env w = Some (Inl NoResultsError, w')
      \<longleftrightarrow> searchArticles_loop cfg env [] 0 w = Some (None, [], w')"
  proof (cases "searchArticles_loop cfg env [] 0 w")
    case None
    then show ?thesis by (simp add: searchArticles_def)
  next
    case (Some res)
    obtain e ids v where res: "res = (e, ids, v)" by (cases res)
    show ?thesis
    proof (cases e)
      case None
      with Some res show ?thesis by (auto simp: searchArticles_def)
    next
      case (Some err)
      with \<open>searchArticles_loop cfg env [] 0 w = Some res\<close> res
      have "err \<noteq> NoResultsError" by (auto simp: NoResultsError_def dest: loop_error_kind)
      with Some \<open>searchArticles_loop cfg env [] 0 w = Some res\<close> res show ?thesis
        by (auto simp: searchArticles_def)
    qed
  qed
next
  assume a: "0 < MAX_RESULTS cfg \<and> query_ok cfg env
        \<and> fetchWithRetry (get env) (searchUrl cfg env 0) 3 (DELAY_MS cfg) w = (Returned r, w1)
        \<and> parseXml_search env (data r) = Inr (Some sr)
        \<and> (eSearchResult sr = None \<or> (\<exists>e. eSearchResult sr = Some e \<and> IdList e = None))"
  then have "search_Id sr = Absent" by (auto simp: search_Id_def)
  then have "\<not> truthy_field (\<lambda>s. s \<noteq> []) (search_Id sr)" by simp
  with a have "searchArticles_loop cfg env [] 0 w = Some (None, [], w1)"
    by (intro search_no_ids) auto
  then show "searchArticles cfg env w = Some (Inl NoResultsError, w1)"
    by (simp add: searchArticles_def)
  show "fst ` set (requests (trace w1))
               = fst ` set (requests (trace w)) \<union> {searchUrl cfg env 0}"
    using a by (intro fetchWithRetry_requests[of 3]) auto
qed

text \<open>
  So it is for a first page whose document has no identifier list.
\<close>

lemma demo_no_ids:
  "searchArticles demo_cfg (demo_env scripted) \<lparr>net = [Inr empty_page], trace = []\<rparr>
     = Some (Inl NoResultsError,
             \<lparr>net = [],
              trace = [Get (searchUrl demo_cfg (demo_env scripted) 0) (Inr empty_page)]\<rparr>)"
proof -
  let ?w = "\<lparr>net = [Inr empty_page], trace = []\<rparr> :: (string + response) list world"
  let ?w1 = "\<lparr>net = [],
              trace = [Get (searchUrl demo_cfg (demo_env scripted) 0) (Inr empty_page)]\<rparr>
              :: (string + response) list world"
  have cap: "0 < MAX_RESULTS demo_cfg" by (simp add: demo_cfg_def)
  have f: "fetchWithRetry (get (demo_env scripted)) (searchUrl demo_cfg (demo_env scripted) 0) 3
             (DELAY_MS demo_cfg) ?w = (Returned empty_page, ?w1)"
    by (simp add: fetchWithRetry_first demo_env_def scripted_def)
  have p: "parseXml_search (demo_env scripted) (data empty_page)
             = Inr (Some \<lparr>eSearchResult = Some \<lparr>IdList = None\<rparr>\<rparr>)"
    by (simp add: demo_env_def demo_parseXml_search_def empty_page_def)
  have s: "eSearchResult \<lparr>eSearchResult = Some \<lparr>IdList = None\<rparr>\<rparr> = None
         \<or> (\<exists>e. eSearchResult \<lparr>eSearchResult = Some \<lparr>IdList = None\<rparr>\<rparr> = Some e \<and> IdList e = None)"
    by simp
  from search_no_results_decoded[of demo_cfg "demo_env scripted" ?w ?w1 empty_page ?w1
      "\<lparr>eSearchResult = Some \<lparr>IdList = None\<rparr>\<rparr>"] cap f p s demo_query_ok(2)[of scripted]
  show ?thesis by blast
qed

text \<open>
  C5. The claim is that a first page without identifier list makes \<open>searchArticles\<close>
  throw the error \<open>No article IDs found\<close>. At the input below the first page is received
  with an empty body. The parser yields \<open>null\<close> for it, and the test of the identifier
  list, whose optional chaining guards \<open>eSearchResult\<close> and \<open>IdList\<close> but not the document
  itself, reads \<open>eSearchResult\<close> of \<open>null\<close>: \<open>searchArticles\<close> throws \<open>TypeError\<close>, not the
  error \<open>No article IDs found\<close>.
\<close>

theorem search_blank_first_page:
  "searchArticles demo_cfg (demo_env scripted) \<lparr>net = [Inr blank], trace = []\<rparr>
     = Some (Inl TypeError,
             \<lparr>net = [],
              trace = [Get (searchUrl demo_cfg (demo_env scripted) 0) (Inr blank)]\<rparr>)"
proof -
  let ?w = "\<lparr>net = [Inr blank], trace = []\<rparr> :: (string + response) list world"
  let ?w1 = "\<lparr>net = [],
              trace = [Get (searchUrl demo_cfg (demo_env scripted) 0) (Inr blank)]\<rparr>
              :: (string + response) list world"
  have cap: "0 < MAX_RESULTS demo_cfg" by (simp add: demo_cfg_def)
  have f: "fetchWithRetry (get (demo_env scripted)) (searchUrl demo_cfg (demo_env scripted) 0) 3
             (DELAY_MS demo_cfg) ?w = (Returned blank, ?w1)"
    by (simp add: fetchWithRetry_first demo_env_def scripted_def)
  have p: "parseXml_search (demo_env scripted) (data blank) = Inr None"
    by (simp add: demo_env_def demo_parseXml_search_def blank_def)
  have "searchArticles_loop demo_cfg (demo_env scripted) [] 0 ?w = Some (Some TypeError, [], ?w1)"
    by (rule search_null_page[OF cap f p demo_query_ok(2)])
  then show ?thesis by (simp add: searchArticles_def)
qed



section \<open>Properties of the batched fetch\<close>

lemma received_append [simp]: "received (xs @ ys) = received xs @ received ys"
  by (induction xs rule: received.induct) auto

lemma received_failures: "\<forall>x\<in>set xs. isl (snd x) \<Longrightarrow> received xs = []"
  by (induction xs rule: received.induct) auto

lemma asked_snoc: "asked g url n (Suc k) = asked g url n k @ [(url, outcome g url n k)]"
  by (simp add: asked_def)

lemma received_asked_failures: "\<forall>i<k. isl (outcome g url n i) \<Longrightarrow> received (asked g url n k) = []"
  by (rule received_failures) (auto simp: asked_def)

lemma fetchWithRetry_received:
  assumes "0 < retries" and "fetchWithRetry g url retries d w = (res, w')"
  shows "(\<exists>r. res = Returned r
            \<and> received (requests (trace w')) = received (requests (trace w)) @ [(url, r)])
       \<or> (\<exists>e. res = Thrown e \<and> (\<forall>i<retries. isl (outcome g url (net w) i)))"
  using fetchWithRetry_cases[OF assms(1), of g url w d] assms(2)
  by (auto simp: asked_snoc received_asked_failures simp del: upt_Suc)

lemma batches_step:
  "i < length ids
   \<Longrightarrow> fetchArticleDetails_batches cfg ids i batches
       = fetchArticleDetails_batches cfg ids (i + BATCH_SIZE cfg)
           (batches @ [slice i (i + BATCH_SIZE cfg) ids])"
  by (subst fetchArticleDetails_batches.simps) simp

lemma batches_exit:
  "\<not> i < length ids \<Longrightarrow> fetchArticleDetails_batches cfg ids i batches = Some batches"
  by (subst fetchArticleDetails_batches.simps) simp

lemma batches_total:
  assumes "0 < BATCH_SIZE cfg"
  shows "\<exists>bs. fetchArticleDetails_batches cfg ids i batches = Some (batches @ bs)
            \<and> concat bs = drop i ids
            \<and> (\<forall>b\<in>set bs. 0 < length b \<and> length b \<le> BATCH_SIZE cfg)
            \<and> (\<forall>b\<in>set (butlast bs). length b = BATCH_SIZE cfg)"
proof (induction "length ids - i" arbitrary: i batches rule: less_induct)
  case less
  let ?B = "BATCH_SIZE cfg"
  show ?case
  proof (cases "i < length ids")
    case False
    then show ?thesis by (simp add: batches_exit)
  next
    case True
    let ?s = "slice i (i + ?B) ids"
    have "length ids - (i + ?B) < length ids - i" using True assms by simp
    from less[OF this, of "batches @ [?s]"] obtain bs where bs:
      "fetchArticleDetails_batches cfg ids (i + ?B) (batches @ [?s]) = Some ((batches @ [?s]) @ bs)"
      "concat bs = drop (i + ?B) ids"
      "\<forall>b\<in>set bs. 0 < length b \<and> length b \<le> ?B"
      "\<forall>b\<in>set (butlast bs). length b = ?B"
      by blast
    have s: "?s = take ?B (drop i ids)" by (simp add: slice_def)
    have c: "concat (?s # bs) = drop i ids"
    proof -
      have "concat (?s # bs) = take ?B (drop i ids) @ drop ?B (drop i ids)"
        using bs(2) by (simp add: slice_def add.commute)
      then show ?thesis by (simp only: append_take_drop_id)
    qed
    have l: "0 < length ?s \<and> length ?s \<le> ?B" using True assms by (simp add: s)
    have f: "length ?s = ?B" if "bs \<noteq> []"
    proof -
      from that bs(3) have "concat bs \<noteq> []" by (cases bs) auto
      with bs(2) have "i + ?B < length ids" by simp
      then show ?thesis by (simp add: s)
    qed
    have "fetchArticleDetails_batches cfg ids i batches = Some (batches @ (?s # bs))"
      using batches_step[OF True, of cfg batches] bs(1) by simp
    moreover have "\<forall>b\<in>set (?s # bs). 0 < length b \<and> length b \<le> ?B"
      using l bs(3) by simp
    moreover have "\<forall>b\<in>set (butlast (?s # bs)). length b = ?B"
      using f bs(4) by simp
    ultimately show ?thesis using c by blast
  qed
qed

lemma fetch_exit:
  "\<not> i < length batches
   \<Longrightarrow> fetchArticleDetails_loop cfg env batches i allArticles w = (Inr allArticles, w)"
  by (subst fetchArticleDetails_loop.simps) simp

lemma fetch_thrown:
  "i < length batches
   \<Longrightarrow> fetchWithRetry (get env) (fetchUrl cfg (batches ! i)) 3 (DELAY_MS cfg) w = (Thrown e, w')
   \<Longrightarrow> fetchArticleDetails_loop cfg env batches i allArticles w = (Inl (RequestError e), w')"
  by (subst fetchArticleDetails_loop.simps) simp

lemma fetch_unparsed:
  "i < length batches
   \<Longrightarrow> fetchWithRetry (get env) (fetchUrl cfg (batches ! i)) 3 (DELAY_MS cfg) w = (Returned r, w')
   \<Longrightarrow> parseXml_fetch env (data r) = Inl e
   \<Longrightarrow> fetchArticleDetails_loop cfg env batches i allArticles w = (Inl (XmlError e), w')"
  by (subst fetchArticleDetails_loop.simps) simp

lemma fetch_null:
  "i < length batches
   \<Longrightarrow> fetchWithRetry (get env) (fetchUrl cfg (batches ! i)) 3 (DELAY_MS cfg) w = (Returned r, w')
   \<Longrightarrow> parseXml_fetch env (data r) = Inr None
   \<Longrightarrow> fetchArticleDetails_loop cfg env batches i allArticles w = (Inl TypeError, w')"
  by (subst fetchArticleDetails_loop.simps) simp

lemma as_array_truthy:
  "(if truthy_field (\<lambda>a. True) f then xs @ as_array f else xs) = xs @ as_array f"
  by (cases f) auto

lemma fetch_step:
  "i < length batches
   \<Longrightarrow> fetchWithRetry (get env) (fetchUrl cfg (batches ! i)) 3 (DELAY_MS cfg) w = (Returned r, w')
   \<Longrightarrow> parseXml_fetch env (data r) = Inr (Some fr)
   \<Longrightarrow> fetchArticleDetails_loop cfg env batches i allArticles w
       = fetchArticleDetails_loop cfg env batches (i + 1)
           (allArticles @ as_array (fetch_PubmedArticle fr))
           (if i < length batches - 1 then delay (DELAY_MS cfg) w' else w')"
  by (subst fetchArticleDetails_loop.simps) (simp add: as_array_truthy)

lemma fetch_loop_result:
  "\<exists>res w'. fetchArticleDetails_loop cfg env batches i allArticles w = (res, w')
     \<and> ((\<exists>m. res = Inl (RequestError m) \<and> (\<exists>n u. \<forall>i<3. isl (outcome (get env) u n i)))
        \<or> (\<exists>m. res = Inl (XmlError m) \<and> (\<exists>d. parseXml_fetch env d = Inl m))
        \<or> (res = Inl TypeError \<and> (\<exists>d. parseXml_fetch env d = Inr None))
        \<or> (\<exists>rs. res = Inr (allArticles @ concat (map (records env) rs))
              \<and> length rs = length batches - i
              \<and> (\<forall>r\<in>set rs. decoded env r)
              \<and> received (requests (trace w'))
                  = received (requests (trace w)) @ zip (map (fetchUrl cfg) (drop i batches)) rs))"
proof (induction "length batches - i" arbitrary: i allArticles w)
  case 0
  then show ?case by (simp add: fetch_exit)
next
  case (Suc m)
  then have lt: "i < length batches" by simp
  let ?u = "fetchUrl cfg (batches ! i)"
  obtain res1 w1 where f: "fetchWithRetry (get env) ?u 3 (DELAY_MS cfg) w = (res1, w1)"
    by (cases "fetchWithRetry (get env) ?u 3 (DELAY_MS cfg) w")
  from fetchWithRetry_received[OF _ f] consider
    (ret) r where "res1 = Returned r"
      "received (requests (trace w1)) = received (requests (trace w)) @ [(?u, r)]"
    | (thr) e where "res1 = Thrown e"
        "\<forall>i<3. isl (outcome (get env) ?u (net w) i)" by auto
  then show ?case
  proof cases
    case thr
    with fetch_thrown[OF lt, of env cfg w e w1 allArticles] f show ?thesis by blast
  next
    case ret
    show ?thesis
    proof (cases "parseXml_fetch env (data r)")
      case (Inl e)
      with fetch_unparsed[OF lt, of env cfg w r w1 e allArticles] f ret show ?thesis by blast
    next
      case (Inr doc)
      show ?thesis
      proof (cases doc)
        case None
        with Inr fetch_null[OF lt, of env cfg w r w1 allArticles] f ret show ?thesis by blast
      next
        case (Some fr)
      let ?w2 = "if i < length batches - 1 then delay (DELAY_MS cfg) w1 else w1"
      let ?acc = "allArticles @ as_array (fetch_PubmedArticle fr)"
      have step: "fetchArticleDetails_loop cfg env batches i allArticles w
                    = fetchArticleDetails_loop cfg env batches (i + 1) ?acc ?w2"
        using fetch_step[OF lt, of env cfg w r w1 fr allArticles] f ret Inr Some by simp
      have m: "m = length batches - (i + 1)" using Suc.hyps(2) by simp
      from Suc.hyps(1)[OF m, of ?acc ?w2] obtain res w' where r:
        "fetchArticleDetails_loop cfg env batches (i + 1) ?acc ?w2 = (res, w')"
        "(\<exists>m. res = Inl (RequestError m) \<and> (\<exists>n u. \<forall>i<3. isl (outcome (get env) u n i)))
        \<or> (\<exists>m. res = Inl (XmlError m) \<and> (\<exists>d. parseXml_fetch env d = Inl m))
        \<or> (res = Inl TypeError \<and> (\<exists>d. parseXml_fetch env d = Inr None))
        \<or> (\<exists>rs. res = Inr (?acc @ concat (map (records env) rs))
              \<and> length rs = length batches - (i + 1)
              \<and> (\<forall>r\<in>set rs. decoded env r)
              \<and> received (requests (trace w'))
                  = received (requests (trace ?w2)) @ zip (map (fetchUrl cfg) (drop (i + 1) batches)) rs)"
        by blast
      from r(2) consider
        (e1) "\<exists>m. res = Inl (RequestError m) \<and> (\<exists>n u. \<forall>i<3. isl (outcome (get env) u n i))"
        | (e2) "\<exists>m. res = Inl (XmlError m) \<and> (\<exists>d. parseXml_fetch env d = Inl m)"
        | (e3) "res = Inl TypeError \<and> (\<exists>d. parseXml_fetch env d = Inr None)"
        | (ok) "\<exists>rs. res = Inr (?acc @ concat (map (records env) rs))
              \<and> length rs = length batches - (i + 1)
              \<and> (\<forall>r\<in>set rs. decoded env r)
              \<and> received (requests (trace w'))
                  = received (requests (trace ?w2)) @ zip (map (fetchUrl cfg) (drop (i + 1) batches)) rs"
        by blast
      then show ?thesis
      proof cases
        case e1
        with step r(1) show ?thesis by auto
      next
        case e2
        with step r(1) show ?thesis by auto
      next
        case e3
        with step r(1) show ?thesis by auto
      next
        case ok
        then obtain rs where rs: "res = Inr (?acc @ concat (map (records env) rs))"
          "length rs = length batches - (i + 1)"
          "\<forall>r\<in>set rs. decoded env r"
          "received (requests (trace w'))
                  = received (requests (trace ?w2)) @ zip (map (fetchUrl cfg) (drop (i + 1) batches)) rs"
          by blast
        have rec: "records env r = as_array (fetch_PubmedArticle fr)"
          by (simp add: records_def Inr Some)
        have d: "drop i batches = batches ! i # drop (i + 1) batches"
          using lt by (simp add: Cons_nth_drop_Suc)
        have t2: "received (requests (trace ?w2)) = received (requests (trace w)) @ [(?u, r)]"
          using ret(2) by simp
        have loop: "fetchArticleDetails_loop cfg env batches i allArticles w = (res, w')"
          using step r(1) by simp
        have a1: "res = Inr (allArticles @ concat (map (records env) (r # rs)))"
          using rs(1) rec by simp
        have a2: "length (r # rs) = length batches - i" using rs(2) lt by simp
        have a3: "\<forall>x\<in>set (r # rs). decoded env x"
          using rs(3) Some Inr by (simp add: decoded_def)
        have a4: "received (requests (trace w'))
                  = received (requests (trace w)) @ zip (map (fetchUrl cfg) (drop i batches)) (r # rs)"
          unfolding d using rs(4) t2 by simp
        show ?thesis
          by (rule exI[of _ res], rule exI[of _ w'], rule conjI[OF loop], rule disjI2,
              rule disjI2, rule disjI2, rule exI[of _ "r # rs"]) (intro conjI a1 a2 a3 a4)
      qed
      qed
    qed
  qed
qed


text \<open>
  What holds of \<open>fetchArticleDetails\<close> for a positive batch size: it cuts the identifiers
  into consecutive batches whose concatenation is the input, each of them non-empty and of
  at most \<open>BATCH_SIZE\<close> identifiers and all but the last of exactly \<open>BATCH_SIZE\<close>, and it
  returns. Against a remote side that answers every request within three attempts, with
  bodies that all decode to documents, the result is the concatenation, in batch order,
  of the record sequences of the responses received, one response per batch, each
  received from the URL of its batch; a document without articles has the empty record
  sequence and adds nothing.
\<close>

lemma fetchArticleDetails_decoded:
  assumes "0 < BATCH_SIZE cfg"
    and answers: "\<forall>n u. \<exists>i<3. \<not> isl (outcome (get env) u n i)"
    and decodes: "\<forall>d. \<exists>doc. parseXml_fetch env d = Inr (Some doc)"
  shows "\<exists>batches rs w'.
           fetchArticleDetails_batches cfg ids 0 [] = Some batches
         \<and> concat batches = ids
         \<and> (\<forall>b\<in>set batches. 0 < length b \<and> length b \<le> BATCH_SIZE cfg)
         \<and> (\<forall>b\<in>set (butlast batches). length b = BATCH_SIZE cfg)
         \<and> fetchArticleDetails cfg env ids w = Some (Inr (concat (map (records env) rs)), w')
         \<and> length rs = length batches
         \<and> (\<forall>r\<in>set rs. decoded env r)
         \<and> received (requests (trace w'))
              = received (requests (trace w)) @ zip (map (fetchUrl cfg) batches) rs"
proof -
  from batches_total[OF assms(1), of ids 0 "[]"] obtain batches where b:
    "fetchArticleDetails_batches cfg ids 0 [] = Some batches" "concat batches = ids"
    "\<forall>b\<in>set batches. 0 < length b \<and> length b \<le> BATCH_SIZE cfg"
    "\<forall>b\<in>set (butlast batches). length b = BATCH_SIZE cfg"
    by auto
  have no1: "\<not> (\<exists>n u. \<forall>i<3. isl (outcome (get env) u n i))"
    using answers by blast
  have no2: "\<not> (\<exists>d. parseXml_fetch env d = Inl m)" for m
    using decodes by (metis Inl_Inr_False)
  have no3: "\<not> (\<exists>d. parseXml_fetch env d = Inr None)"
    using decodes by (metis option.distinct(1) sum.inject(2))
  have "\<exists>res w'. fetchArticleDetails_loop cfg env batches 0 [] w = (res, w')
     \<and> (\<exists>rs. res = Inr (concat (map (records env) rs))
                  \<and> length rs = length batches
                  \<and> (\<forall>r\<in>set rs. decoded env r)
                  \<and> received (requests (trace w'))
                      = received (requests (trace w)) @ zip (map (fetchUrl cfg) batches) rs)"
    using fetch_loop_result[of cfg env batches 0 "[]" w] no1 no2 no3 by simp
  then obtain rs w' where l:
    "fetchArticleDetails_loop cfg env batches 0 [] w = (Inr (concat (map (records env) rs)), w')"
    "length rs = length batches" "\<forall>r\<in>set rs. decoded env r"
    "received (requests (trace w'))
       = received (requests (trace w)) @ zip (map (fetchUrl cfg) batches) rs"
    by blast
  have f: "fetchArticleDetails cfg env ids w = Some (Inr (concat (map (records env) rs)), w')"
    by (simp add: fetchArticleDetails_def b(1) l(1))
  show ?thesis
    by (rule exI[of _ batches], rule exI[of _ rs], rule exI[of _ w'])
       (intro conjI b f l(2) l(3) l(4))
qed

lemma demo_batches:
  "fetchArticleDetails_batches demo_cfg [''31452104'', ''29083409'', ''30000001''] 0 []
     = Some [[''31452104'', ''29083409''], [''30000001'']]"
  by (simp add: fetchArticleDetails_batches.simps slice_def demo_cfg_def)

text \<open>
  A batch answered by a document without articles adds nothing and is no error.
\<close>

lemma demo_fetch:
  "fetchArticleDetails demo_cfg (demo_env scripted) [''31452104'', ''29083409'', ''30000001'']
             \<lparr>net = [Inr two_articles, Inr no_articles], trace = []\<rparr>
   = Some (Inr [gene_article, other_article],
           \<lparr>net = [],
            trace = [Get (fetchUrl demo_cfg [''31452104'', ''29083409'']) (Inr two_articles),
                     Delay 1000,
                     Get (fetchUrl demo_cfg [''30000001'']) (Inr no_articles)]\<rparr>)"
proof -
  have d: "DELAY_MS demo_cfg = 1000" by (simp add: demo_cfg_def)
  have l: "fetchArticleDetails_loop demo_cfg (demo_env scripted)
             [[''31452104'', ''29083409''], [''30000001'']] 0 []
             \<lparr>net = [Inr two_articles, Inr no_articles], trace = []\<rparr>
           = (Inr [gene_article, other_article],
           \<lparr>net = [],
            trace = [Get (fetchUrl demo_cfg [''31452104'', ''29083409'']) (Inr two_articles),
                     Delay 1000,
                     Get (fetchUrl demo_cfg [''30000001'']) (Inr no_articles)]\<rparr>)"
    by (simp add: fetchArticleDetails_loop.simps fetchWithRetry_def fetchWithRetry_loop.simps
          axios_get_def delay_def demo_env_def scripted_def d demo_parseXml_fetch_def
          two_articles_def no_articles_def fetch_PubmedArticle_def)
  show ?thesis by (simp add: fetchArticleDetails_def demo_batches l)
qed

text \<open>
  C8. The claim is that a batch whose response yields no records adds nothing and is no
  error. At the input below the second batch is answered with an empty body. The parser
  yields \<open>null\<close> for it, and the optional chaining, which guards \<open>PubmedArticleSet\<close> but
  not the document itself, reads \<open>PubmedArticleSet\<close> of \<open>null\<close>: \<open>fetchArticleDetails\<close>
  throws \<open>TypeError\<close>, and the records of the first batch are lost with it.
\<close>

theorem fetch_blank_batch:
  "fetchArticleDetails demo_cfg (demo_env scripted) [''31452104'', ''29083409'', ''30000001'']
             \<lparr>net = [Inr two_articles, Inr blank], trace = []\<rparr>
   = Some (Inl TypeError,
           \<lparr>net = [],
            trace = [Get (fetchUrl demo_cfg [''31452104'', ''29083409'']) (Inr two_articles),
                     Delay 1000,
                     Get (fetchUrl demo_cfg [''30000001'']) (Inr blank)]\<rparr>)"
proof -
  have d: "DELAY_MS demo_cfg = 1000" by (simp add: demo_cfg_def)
  have l: "fetchArticleDetails_loop demo_cfg (demo_env scripted)
             [[''31452104'', ''29083409''], [''30000001'']] 0 []
             \<lparr>net = [Inr two_articles, Inr blank], trace = []\<rparr>
           = (Inl TypeError,
           \<lparr>net = [],
            trace = [Get (fetchUrl demo_cfg [''31452104'', ''29083409'']) (Inr two_articles),
                     Delay 1000,
                     Get (fetchUrl demo_cfg [''30000001'']) (Inr blank)]\<rparr>)"
    by (simp add: fetchArticleDetails_loop.simps fetchWithRetry_def fetchWithRetry_loop.simps
          axios_get_def delay_def demo_env_def scripted_def d demo_parseXml_fetch_def
          two_articles_def blank_def fetch_PubmedArticle_def)
  show ?thesis by (simp add: fetchArticleDetails_def demo_batches l)
qed

section \<open>Properties of validation and aggregation\<close>

lemma truthy_present: "truthy v \<longleftrightarrow> (\<exists>s. present v s)"
  by (cases v) (auto simp: truthy_def present_def)

lemma truthy_absent: "\<not> truthy v \<longleftrightarrow> absent v"
  by (cases v) (auto simp: truthy_def absent_def)

text \<open>
  C10. \<open>formatAuthorName\<close> follows the priority order: the given name, a space and the
  last name when both are present; the last name alone when it is present and the given
  name is not; the collective name, unchanged, when the last name is absent and the
  collective name present; the empty string when the last name and the collective name
  are both absent.
\<close>

theorem formatAuthorName_priority:
  "(present (LastName a) l \<and> present (ForeName a) g \<longrightarrow> formatAuthorName a = g @ '' '' @ l)
   \<and> (present (LastName a) l \<and> absent (ForeName a) \<longrightarrow> formatAuthorName a = l)
   \<and> (absent (LastName a) \<and> present (CollectiveName a) c \<longrightarrow> formatAuthorName a = c)
   \<and> (absent (LastName a) \<and> absent (CollectiveName a) \<longrightarrow> formatAuthorName a = [])"
  by (auto simp: formatAuthorName_def truthy_def present_def absent_def split: option.splits)

theorem formatAuthorName_priority_witness:
  "present (LastName jane) ''Smith'' \<and> present (ForeName jane) ''Jane''
   \<and> formatAuthorName jane = ''Jane Smith''
   \<and> absent (LastName consortium) \<and> present (CollectiveName consortium) ''ENCODE''
   \<and> formatAuthorName consortium = ''ENCODE''
   \<and> absent (LastName nameless) \<and> absent (CollectiveName nameless)
   \<and> formatAuthorName nameless = []"
proof -
  have j: "present (LastName jane) ''Smith'' \<and> present (ForeName jane) ''Jane''"
    by (simp add: jane_def present_def)
  have c: "absent (LastName consortium) \<and> present (CollectiveName consortium) ''ENCODE''"
    by (simp add: consortium_def present_def absent_def)
  have n: "absent (LastName nameless) \<and> absent (CollectiveName nameless)"
    by (simp add: nameless_def absent_def)
  from formatAuthorName_priority[of jane "''Smith''" "''Jane''"] j
  have 1: "formatAuthorName jane = ''Jane Smith''" by simp
  from formatAuthorName_priority[of consortium _ _ "''ENCODE''"] c
  have 2: "formatAuthorName consortium = ''ENCODE''" by simp
  from formatAuthorName_priority[of nameless] n
  have 3: "formatAuthorName nameless = []" by simp
  from j c n 1 2 3 show ?thesis by simp
qed

lemma includes_str_iff: "includes_str h n \<longleftrightarrow> (\<exists>p s. h = p @ n @ s)"
proof (induction h)
  case Nil
  then show ?case by auto
next
  case (Cons c cs)
  have pre: "take (length n) (c # cs) = n \<longleftrightarrow> (\<exists>s. c # cs = n @ s)"
    by (metis append_eq_conv_conj append_take_drop_id)
  show ?case
  proof
    assume "includes_str (c # cs) n"
    then consider "take (length n) (c # cs) = n" | "includes_str cs n" by auto
    then show "\<exists>p s. c # cs = p @ n @ s"
    proof cases
      case 1
      with pre obtain s where "c # cs = [] @ n @ s" by auto
      then show ?thesis by blast
    next
      case 2
      with Cons.IH obtain p s where "cs = p @ n @ s" by blast
      then have "c # cs = (c # p) @ n @ s" by simp
      then show ?thesis by blast
    qed
  next
    assume "\<exists>p s. c # cs = p @ n @ s"
    then obtain p s where ps: "c # cs = p @ n @ s" by blast
    show "includes_str (c # cs) n"
    proof (cases p)
      case Nil
      with ps have "\<exists>s. c # cs = n @ s" by auto
      with pre have "take (length n) (c # cs) = n" by blast
      then show ?thesis by simp
    next
      case (Cons x p')
      with ps have "cs = p' @ n @ s" by simp
      with Cons.IH show ?thesis by auto
    qed
  qed
qed

lemma case_stable_idem: "case_stable lower \<Longrightarrow> lower (lower x) = lower x"
  unfolding case_stable_def by (metis append_Nil append_Nil2)

lemma normalizeTitle_lowered: "\<exists>x. normalizeTitle env t = toLowerCase env x"
  by (auto simp: normalizeTitle_def split: option.splits title.splits)

lemma includes_lower_iff:
  assumes "case_stable lower"
  shows "includes_str (lower x) (lower n) \<longleftrightarrow> contains_ci lower (lower x) n"
proof
  assume "includes_str (lower x) (lower n)"
  then obtain p s where "lower x = p @ lower n @ s" by (auto simp: includes_str_iff)
  moreover have "lower (lower n) = lower n" by (rule case_stable_idem[OF assms])
  ultimately show "contains_ci lower (lower x) n"
    unfolding contains_ci_def by blast
next
  assume "contains_ci lower (lower x) n"
  then obtain p u s where h: "lower x = p @ u @ s" and u: "lower u = lower n"
    by (auto simp: contains_ci_def)
  from assms h have "lower u = u" unfolding case_stable_def by blast
  with u h show "includes_str (lower x) (lower n)" by (auto simp: includes_str_iff)
qed

lemma ascii_lower_char_idem: "ascii_lower_char (ascii_lower_char c) = ascii_lower_char c"
  by (simp add: ascii_lower_char_def)

lemma ascii_case_stable: "case_stable ascii_toLowerCase"
  unfolding case_stable_def
proof (intro allI impI)
  fix x p u s
  assume "ascii_toLowerCase x = p @ u @ s"
  then have "map ascii_lower_char x = p @ (u @ s)"
    by (simp add: ascii_toLowerCase_def)
  then obtain y where "u @ s = map ascii_lower_char y"
    unfolding map_eq_append_conv by blast
  then have "map ascii_lower_char y = u @ s" by simp
  then obtain v where "u = map ascii_lower_char v"
    unfolding map_eq_append_conv by blast
  then show "ascii_toLowerCase u = u"
    by (simp add: ascii_toLowerCase_def ascii_lower_char_idem)
qed

text \<open>
  C7. For every keyword list and every title, \<open>validateTitle\<close> is true exactly when
  the normalized title contains one of the keywords as a substring up to case. The
  normalized title of a plain string is the string trimmed and in lower case; that of a
  structured title with a non-empty text field is that text, trimmed and in lower case.
  Of the built-in \<open>toLowerCase\<close> only this is used: no part of a string in lower case is
  changed by it.
\<close>

theorem validateTitle_iff:
  assumes "case_stable (toLowerCase env)"
  shows "(validateTitle cfg env t
      \<longleftrightarrow> (\<exists>keyword\<in>set (KEYWORDS (SEARCH_TERMS cfg)).
             contains_ci (toLowerCase env) (normalizeTitle env t) keyword))
   \<and> normalizeTitle env (Some (TitleString str)) = toLowerCase env (trim env str)
   \<and> (text \<noteq> []
        \<longrightarrow> normalizeTitle env (Some (TitleObject (Some text))) = toLowerCase env (trim env text))"
proof (intro conjI)
  obtain x where x: "normalizeTitle env t = toLowerCase env x"
    using normalizeTitle_lowered by blast
  show "validateTitle cfg env t
      \<longleftrightarrow> (\<exists>keyword\<in>set (KEYWORDS (SEARCH_TERMS cfg)).
             contains_ci (toLowerCase env) (normalizeTitle env t) keyword)"
    unfolding validateTitle_def list_ex_iff x
    by (simp add: includes_lower_iff[OF assms])
  show "normalizeTitle env (Some (TitleString str)) = toLowerCase env (trim env str)"
    by (simp add: normalizeTitle_def or_else_def truthy_def)
  show "text \<noteq> []
        \<longrightarrow> normalizeTitle env (Some (TitleObject (Some text))) = toLowerCase env (trim env text)"
    by (simp add: normalizeTitle_def or_else_def truthy_def)
qed

theorem validateTitle_iff_witness:
  "case_stable (toLowerCase (demo_env scripted))
   \<and> validateTitle demo_cfg (demo_env scripted)
        (Some (TitleObject (Some ''  Regulation of GENE X '')))
   \<and> (\<exists>keyword\<in>set (KEYWORDS (SEARCH_TERMS demo_cfg)).
         contains_ci (toLowerCase (demo_env scripted))
           (normalizeTitle (demo_env scripted)
              (Some (TitleObject (Some ''  Regulation of GENE X '')))) keyword)
   \<and> normalizeTitle (demo_env scripted) (Some (TitleObject (Some ''  Regulation of GENE X '')))
       = ''regulation of gene x''"
proof -
  have c: "case_stable (toLowerCase (demo_env scripted))"
    by (simp add: demo_env_def ascii_case_stable)
  have n: "normalizeTitle (demo_env scripted)
             (Some (TitleObject (Some ''  Regulation of GENE X ''))) = ''regulation of gene x''"
    by code_simp
  have v: "validateTitle demo_cfg (demo_env scripted)
             (Some (TitleObject (Some ''  Regulation of GENE X '')))"
    by code_simp
  from validateTitle_iff[OF c, of demo_cfg "Some (TitleObject (Some ''  Regulation of GENE X ''))"]
    c v n
  show ?thesis by blast
qed

lemma validated_has_Article:
  "validateArticleData cfg env article \<Longrightarrow> \<exists>articleData. article_Article article = Some articleData"
  by (auto simp: validateArticleData_def article_title_def truthy_title_def
        split: if_splits option.splits)

lemma fold_set_add_set: "set (fold set_add xs s) = set s \<union> set xs"
  by (induction xs arbitrary: s) (auto simp: set_add_def)

lemma fold_set_add_id: "set xs \<subseteq> set s \<Longrightarrow> fold set_add xs s = s"
  by (induction xs arbitrary: s) (auto simp: set_add_def)

lemma fold_set_add_distinct: "distinct s \<Longrightarrow> distinct (fold set_add xs s)"
  by (induction xs arbitrary: s) (auto simp: set_add_def)

lemma fold_cond_set_add:
  "fold (\<lambda>info acc. if P info then set_add (f info) acc else acc) infos s
     = fold set_add (map f (filter P infos)) s"
  by (induction infos arbitrary: s) auto

lemma addAffiliations_fold: "addAffiliations a s = fold set_add (affiliations_of a) s"
proof (cases "AffiliationInfo a")
  case Absent
  then show ?thesis by (simp add: addAffiliations_def affiliations_of_def)
next
  case (Single x)
  then show ?thesis by (simp add: addAffiliations_def affiliations_of_def)
next
  case (Many xs)
  then show ?thesis
    by (simp add: addAffiliations_def affiliations_of_def fold_cond_set_add)
qed

lemma map_entry_id: "map_of m k = Some e \<Longrightarrow> f e = e \<Longrightarrow> AList.map_entry k f m = m"
  by (induction m) (auto split: if_splits)

lemma author_step_lookup:
  assumes "formatAuthorName a \<noteq> []"
  shows "map_of (extractAuthorInfo_author t a m)
           = (map_of m)(formatAuthorName a \<mapsto>
               (let e = (case map_of m (formatAuthorName a) of
                           None \<Rightarrow> \<lparr>affiliations = [], titles = []\<rparr> | Some e \<Rightarrow> e)
                in \<lparr>affiliations = addAffiliations a (affiliations e),
                    titles = set_add t (titles e)\<rparr>))"
  using assms
  by (auto simp: extractAuthorInfo_author_def Let_def map_of_map_entry update_conv' fun_eq_iff
        split: option.splits)

lemma author_step_skip: "formatAuthorName a = [] \<Longrightarrow> extractAuthorInfo_author t a m = m"
  by (simp add: extractAuthorInfo_author_def)

lemma author_step_keys:
  "fst ` set (extractAuthorInfo_author t a m)
     = fst ` set m \<union> (if formatAuthorName a = [] then {} else {formatAuthorName a})"
  by (auto simp: extractAuthorInfo_author_def Let_def dom_map_entry dom_update
        map_of_eq_None_iff)

lemma settled_stable:
  assumes "settled t a m"
  shows "extractAuthorInfo_author t a m = m"
proof (cases "formatAuthorName a = []")
  case True
  then show ?thesis by (rule author_step_skip)
next
  case False
  with assms obtain e where e: "map_of m (formatAuthorName a) = Some e"
    "t \<in> set (titles e)" "set (affiliations_of a) \<subseteq> set (affiliations e)"
    by (auto simp: settled_def)
  have 1: "AList.map_entry (formatAuthorName a) (\<lambda>e. e\<lparr>titles := set_add t (titles e)\<rparr>) m = m"
    by (rule map_entry_id[OF e(1)]) (simp add: set_add_def e(2))
  have 2: "AList.map_entry (formatAuthorName a)
             (\<lambda>e. e\<lparr>affiliations := addAffiliations a (affiliations e)\<rparr>) m = m"
    by (rule map_entry_id[OF e(1)]) (simp add: addAffiliations_fold fold_set_add_id[OF e(3)])
  show ?thesis
    using False e(1) by (simp add: extractAuthorInfo_author_def 1 2)
qed

lemma settled_after: "settled t a (extractAuthorInfo_author t a m)"
proof (cases "formatAuthorName a = []")
  case True
  then show ?thesis by (simp add: settled_def)
next
  case False
  then show ?thesis
    by (auto simp: settled_def author_step_lookup Let_def set_add_def addAffiliations_fold
          fold_set_add_set)
qed

lemma settled_mono:
  assumes "settled t a m"
  shows "settled t a (extractAuthorInfo_author t' a' m)"
proof (cases "formatAuthorName a' = []")
  case True
  with assms show ?thesis by (simp add: author_step_skip)
next
  case False
  show ?thesis
  proof (cases "formatAuthorName a = []")
    case True
    then show ?thesis by (simp add: settled_def)
  next
    case na: False
    with assms obtain e where e: "map_of m (formatAuthorName a) = Some e"
      "t \<in> set (titles e)" "set (affiliations_of a) \<subseteq> set (affiliations e)"
      by (auto simp: settled_def)
    then show ?thesis
      using False
      by (auto simp: settled_def author_step_lookup Let_def set_add_def addAffiliations_fold
            fold_set_add_set)
  qed
qed

lemma settled_fold_mono:
  "settled t a m \<Longrightarrow> settled t a (fold (extractAuthorInfo_author t') as m)"
  by (induction as arbitrary: m) (auto intro: settled_mono)

lemma settled_fold_all:
  "\<forall>a\<in>set as. settled t a (fold (extractAuthorInfo_author t) as m)"
proof (induction as arbitrary: m)
  case Nil
  then show ?case by simp
next
  case (Cons a as)
  have "settled t a (fold (extractAuthorInfo_author t) as (extractAuthorInfo_author t a m))"
    by (rule settled_fold_mono[OF settled_after])
  with Cons.IH[of "extractAuthorInfo_author t a m"] show ?case by simp
qed

lemma settled_fold_id:
  "\<forall>a\<in>set as. settled t a m \<Longrightarrow> fold (extractAuthorInfo_author t) as m = m"
  by (induction as) (auto simp: settled_stable)

lemma authors_fold_idem:
  "fold (extractAuthorInfo_author t) as (fold (extractAuthorInfo_author t) as m)
     = fold (extractAuthorInfo_author t) as m"
  by (rule settled_fold_id[OF settled_fold_all])

lemma article_step_eq:
  "extractAuthorInfo_article cfg env article m =
     (if validateArticleData cfg env article
      then (case article_Article article of
              None \<Rightarrow> m
            | Some articleData \<Rightarrow>
                fold (extractAuthorInfo_author
                        (normalizeTitle env (ArticleTitle articleData) @ '' (''
                           @ article_year articleData @ '')''))
                  (as_array (article_authors articleData)) m)
      else m)"
proof -
  have "fold g (as_array f) m = m" if "\<not> truthy_field (\<lambda>a. True) f"
    for g :: "author \<Rightarrow> author_map \<Rightarrow> author_map" and f
    using that by (cases f) auto
  then show ?thesis
    by (auto simp: extractAuthorInfo_article_def Let_def split: option.splits)
qed

lemma article_step_idem:
  "extractAuthorInfo_article cfg env article (extractAuthorInfo_article cfg env article m)
     = extractAuthorInfo_article cfg env article m"
  by (simp add: article_step_eq authors_fold_idem split: option.splits)

lemma authors_fold_keys:
  "fst ` set (fold (extractAuthorInfo_author t) as m)
     = fst ` set m \<union> {n. n \<noteq> [] \<and> (\<exists>a\<in>set as. formatAuthorName a = n)}"
  by (induction as arbitrary: m) (auto simp: author_step_keys)

lemma article_step_keys:
  "fst ` set (extractAuthorInfo_article cfg env article m)
     = fst ` set m \<union> {n. n \<noteq> [] \<and> validateArticleData cfg env article
                          \<and> (\<exists>a\<in>set (authors_of article). formatAuthorName a = n)}"
proof (cases "validateArticleData cfg env article")
  case False
  then show ?thesis by (simp add: article_step_eq)
next
  case True
  then obtain ad where "article_Article article = Some ad"
    by (auto dest: validated_has_Article)
  with True show ?thesis
    by (simp add: article_step_eq authors_fold_keys authors_of_def)
qed

lemma articles_fold_keys:
  "fst ` set (fold (extractAuthorInfo_article cfg env) articles m)
     = fst ` set m \<union> {n. n \<noteq> [] \<and> (\<exists>article\<in>set articles. validateArticleData cfg env article
                          \<and> (\<exists>a\<in>set (authors_of article). formatAuthorName a = n))}"
  by (induction articles arbitrary: m) (auto simp: article_step_keys)

lemma demo_aggregate:
  "extractAuthorInfo demo_cfg (demo_env scripted) [gene_article, other_article]
     = [(''Jane Smith'',
         \<lparr>affiliations = [''MIT''], titles = [''a study of gene x regulation (2020)'']\<rparr>),
        (''ENCODE'',
         \<lparr>affiliations = [], titles = [''a study of gene x regulation (2020)'']\<rparr>)]"
  by code_simp

lemma demo_validated: "validateArticleData demo_cfg (demo_env scripted) gene_article"
  "\<not> validateArticleData demo_cfg (demo_env scripted) other_article"
  by code_simp+

lemma demo_authors: "authors_of gene_article = [jane, consortium, nameless]"
  by (simp add: authors_of_def gene_article_def article_of_def article_Article_def
        article_authors_def)

lemma demo_names: "formatAuthorName jane = ''Jane Smith''" "formatAuthorName nameless = []"
  by (simp_all add: formatAuthorName_def jane_def nameless_def truthy_def)

text \<open>
  C3. The aggregate returned by \<open>extractAuthorInfo\<close> has an entry for a name exactly
  when the name is not empty and some article of the list passes validation and has an
  author whose formatted name is that name. An author whose formatted name is empty is
  skipped: processing it leaves the aggregate as it was.
\<close>

theorem aggregate_keys:
  "(name \<in> fst ` set (extractAuthorInfo cfg env articles)
      \<longleftrightarrow> name \<noteq> []
          \<and> (\<exists>article\<in>set articles. validateArticleData cfg env article
                \<and> (\<exists>a\<in>set (authors_of article). formatAuthorName a = name)))
   \<and> (formatAuthorName a = [] \<longrightarrow> extractAuthorInfo_author titleWithYear a m = m)"
  by (simp add: extractAuthorInfo_def articles_fold_keys author_step_skip)


theorem aggregate_keys_witness:
  "''Jane Smith'' \<in> fst ` set (extractAuthorInfo demo_cfg (demo_env scripted) [gene_article, other_article])
   \<and> validateArticleData demo_cfg (demo_env scripted) gene_article
   \<and> jane \<in> set (authors_of gene_article) \<and> formatAuthorName jane = ''Jane Smith''
   \<and> ''Doe'' \<notin> fst ` set (extractAuthorInfo demo_cfg (demo_env scripted) [gene_article, other_article])
   \<and> formatAuthorName nameless = []
   \<and> extractAuthorInfo_author ''t'' nameless [] = []"
proof -
  have j: "jane \<in> set (authors_of gene_article)" by (simp add: demo_authors)
  have d: "''Doe'' \<notin> fst ` set (extractAuthorInfo demo_cfg (demo_env scripted) [gene_article, other_article])"
    by (simp add: demo_aggregate)
  from aggregate_keys[of "''Jane Smith''" demo_cfg "demo_env scripted" "[gene_article, other_article]"
      nameless "''t''" "[]"] demo_validated(1) j demo_names
  have "''Jane Smith'' \<in> fst ` set (extractAuthorInfo demo_cfg (demo_env scripted) [gene_article, other_article])
        \<and> extractAuthorInfo_author ''t'' nameless [] = []"
    by auto
  with demo_validated(1) j demo_names d show ?thesis by simp
qed

lemma entries_distinct_update:
  "entries_distinct m \<Longrightarrow> distinct (affiliations v) \<Longrightarrow> distinct (titles v)
   \<Longrightarrow> entries_distinct (AList.update k v m)"
  by (induction m) (auto simp: entries_distinct_def)

lemma entries_distinct_map_entry:
  "entries_distinct m
   \<Longrightarrow> (\<And>e. distinct (affiliations e) \<and> distinct (titles e)
            \<Longrightarrow> distinct (affiliations (f e)) \<and> distinct (titles (f e)))
   \<Longrightarrow> entries_distinct (AList.map_entry k f m)"
  by (induction m) (auto simp: entries_distinct_def)

lemma author_step_distinct:
  assumes "entries_distinct m"
  shows "entries_distinct (extractAuthorInfo_author t a m)"
proof (cases "formatAuthorName a = []")
  case True
  with assms show ?thesis by (simp add: author_step_skip)
next
  case False
  let ?n = "formatAuthorName a"
  let ?m1 = "if map_of m ?n = None
             then AList.update ?n \<lparr>affiliations = [], titles = []\<rparr> m else m"
  have 1: "entries_distinct ?m1"
    using assms by (simp add: entries_distinct_update)
  have 2: "entries_distinct
             (AList.map_entry ?n (\<lambda>e. e\<lparr>titles := set_add t (titles e)\<rparr>) ?m1)"
    by (rule entries_distinct_map_entry[OF 1]) (simp add: set_add_def)
  have 3: "entries_distinct
             (AList.map_entry ?n (\<lambda>e. e\<lparr>affiliations := addAffiliations a (affiliations e)\<rparr>)
                (AList.map_entry ?n (\<lambda>e. e\<lparr>titles := set_add t (titles e)\<rparr>) ?m1))"
    by (rule entries_distinct_map_entry[OF 2])
       (simp add: addAffiliations_fold fold_set_add_distinct)
  from False 3 show ?thesis
    by (simp add: extractAuthorInfo_author_def Let_def)
qed

lemma author_step_distinct_keys:
  "distinct (map fst m) \<Longrightarrow> distinct (map fst (extractAuthorInfo_author t a m))"
  by (simp add: extractAuthorInfo_author_def Let_def distinct_map_entry distinct_update)

lemma authors_fold_distinct:
  "entries_distinct m \<Longrightarrow> entries_distinct (fold (extractAuthorInfo_author t) as m)"
  by (induction as arbitrary: m) (auto intro: author_step_distinct)

lemma authors_fold_distinct_keys:
  "distinct (map fst m) \<Longrightarrow> distinct (map fst (fold (extractAuthorInfo_author t) as m))"
  by (induction as arbitrary: m) (auto intro: author_step_distinct_keys)

lemma article_step_distinct:
  "entries_distinct m \<Longrightarrow> entries_distinct (extractAuthorInfo_article cfg env article m)"
  by (simp add: article_step_eq authors_fold_distinct split: option.splits)

lemma article_step_distinct_keys:
  "distinct (map fst m) \<Longrightarrow> distinct (map fst (extractAuthorInfo_article cfg env article m))"
  by (simp add: article_step_eq authors_fold_distinct_keys split: option.splits)

lemma articles_fold_distinct:
  "entries_distinct m \<Longrightarrow> entries_distinct (fold (extractAuthorInfo_article cfg env) articles m)"
  by (induction articles arbitrary: m) (auto intro: article_step_distinct)

lemma articles_fold_distinct_keys:
  "distinct (map fst m) \<Longrightarrow> distinct (map fst (fold (extractAuthorInfo_article cfg env) articles m))"
  by (induction articles arbitrary: m) (auto intro: article_step_distinct_keys)

text \<open>
  C9. In the aggregate returned by \<open>extractAuthorInfo\<close> no entry holds an affiliation
  or a title twice, and no name has two entries. Processing an article a second time
  changes nothing, whatever the aggregate it is applied to; so a list of articles that
  ends with the same article twice yields the aggregate of the list that ends with it
  once.
\<close>

theorem aggregate_sets:
  "(\<forall>(name, e)\<in>set (extractAuthorInfo cfg env articles).
       distinct (affiliations e) \<and> distinct (titles e))
   \<and> distinct (map fst (extractAuthorInfo cfg env articles))
   \<and> extractAuthorInfo_article cfg env article (extractAuthorInfo_article cfg env article m)
       = extractAuthorInfo_article cfg env article m
   \<and> extractAuthorInfo cfg env (articles @ [article, article])
       = extractAuthorInfo cfg env (articles @ [article])"
proof (intro conjI)
  have "entries_distinct (extractAuthorInfo cfg env articles)"
    unfolding extractAuthorInfo_def
    by (rule articles_fold_distinct) (simp add: entries_distinct_def)
  then show "\<forall>(name, e)\<in>set (extractAuthorInfo cfg env articles).
       distinct (affiliations e) \<and> distinct (titles e)"
    by (simp add: entries_distinct_def)
  show "distinct (map fst (extractAuthorInfo cfg env articles))"
    unfolding extractAuthorInfo_def by (rule articles_fold_distinct_keys) simp
  show "extractAuthorInfo_article cfg env article (extractAuthorInfo_article cfg env article m)
       = extractAuthorInfo_article cfg env article m"
    by (rule article_step_idem)
  show "extractAuthorInfo cfg env (articles @ [article, article])
       = extractAuthorInfo cfg env (articles @ [article])"
    by (simp add: extractAuthorInfo_def article_step_idem)
qed

theorem aggregate_sets_witness:
  "extractAuthorInfo demo_cfg (demo_env scripted) ([gene_article, other_article] @ [gene_article, gene_article])
     = [(''Jane Smith'',
         \<lparr>affiliations = [''MIT''], titles = [''a study of gene x regulation (2020)'']\<rparr>),
        (''ENCODE'',
         \<lparr>affiliations = [], titles = [''a study of gene x regulation (2020)'']\<rparr>)]
   \<and> distinct (map fst (extractAuthorInfo demo_cfg (demo_env scripted) [gene_article, other_article]))"
proof -
  have 1: "extractAuthorInfo demo_cfg (demo_env scripted) ([gene_article, other_article] @ [gene_article])
     = [(''Jane Smith'',
         \<lparr>affiliations = [''MIT''], titles = [''a study of gene x regulation (2020)'']\<rparr>),
        (''ENCODE'',
         \<lparr>affiliations = [], titles = [''a study of gene x regulation (2020)'']\<rparr>)]"
    by code_simp
  from aggregate_sets[of demo_cfg "demo_env scripted" "[gene_article, other_article]" gene_article "[]"] 1
  show ?thesis by simp
qed

end
